theory Spec2Isabelle
  imports Complex_Main "HOL-Library.Word"
begin

section \<open>Data model of \<open>src/main.cpp\<close>\<close>

text \<open>
  The C++ type \<open>float\<close> is idealised as \<open>real\<close>: the loader only stores and copies
  the values it reads, and the camera code compares them and adds or subtracts a
  product. Rounding, infinities and NaN are not modelled. \<open>unsigned int\<close> is a 32-bit
  word, \<open>unsigned long\<close> and \<open>size_t\<close> are 64 bits wide (LP64).
\<close>

type_synonym cfloat = real
type_synonym vec3 = "cfloat \<times> cfloat \<times> cfloat"
type_synonym uint = "32 word"
type_synonym ulong = "64 word"

record Mesh =
  vertices :: "cfloat list"
  normals :: "cfloat list"
  indices :: "uint list"
  edgeIndices :: "uint list"

text \<open>
  The loader has no error path of its own. What can stop it is an exception of
  \<open>std::stoul\<close>, which nothing catches (\<open>Invalid_Argument\<close>, \<open>Out_Of_Range\<close>), or an
  unchecked \<open>operator[]\<close> outside a vector, which is undefined behaviour; the model
  stops there and records which vector was read (\<open>Bad_faceVerts\<close>,
  \<open>Bad_faceNormals\<close>, \<open>Bad_tempNormals\<close>).
\<close>

datatype error =
  Invalid_Argument | Out_Of_Range | Bad_faceVerts | Bad_faceNormals | Bad_tempNormals

text \<open>The local variables of \<open>loadOBJ\<close> that live across lines.\<close>

record loader =
  mesh :: Mesh
  tempVertices :: "vec3 list"
  tempNormals :: "vec3 list"

section \<open>Library operations used by the loader\<close>

definition isspace :: "char \<Rightarrow> bool" where
  "isspace c = (c = CHR '' '' \<or> (9 \<le> (of_char c :: nat) \<and> (of_char c :: nat) \<le> 13))"

definition isdigit :: "char \<Rightarrow> bool" where
  "isdigit c = (48 \<le> (of_char c :: nat) \<and> (of_char c :: nat) \<le> 57)"

definition digit_val :: "char \<Rightarrow> nat" where
  "digit_val c = of_char c - 48"

text \<open>
  \<open>std::getline\<close> in a loop: the lines of the text, split at the newline character; a
  last line without newline is delivered when it is not empty.
\<close>

fun getlines_from :: "string \<Rightarrow> string \<Rightarrow> string list" where
  "getlines_from cur [] = (if cur = [] then [] else [cur])"
| "getlines_from cur (c # cs) =
     (if c = CHR 0x0A then cur # getlines_from [] cs else getlines_from (cur @ [c]) cs)"

definition getlines :: "string \<Rightarrow> string list" where
  "getlines src = getlines_from [] src"

text \<open>\<open>while (ss >> token)\<close>: the maximal runs of non-space characters, in order.\<close>

fun tokens_from :: "string \<Rightarrow> string \<Rightarrow> string list" where
  "tokens_from cur [] = (if cur = [] then [] else [cur])"
| "tokens_from cur (c # cs) =
     (if isspace c then (if cur = [] then tokens_from [] cs else cur # tokens_from [] cs)
      else tokens_from (cur @ [c]) cs)"

definition tokens :: "string \<Rightarrow> string list" where
  "tokens s = tokens_from [] s"

text \<open>
  \<open>std::string::npos\<close>, \<open>find(ch, pos)\<close> and \<open>substr\<close>. Every call of \<open>substr\<close> in
  the loader starts at a position that is at most the length of the string (lemma
  \<open>find_char_bound\<close> below), so its \<open>std::out_of_range\<close> is not a branch here.
\<close>

definition npos :: nat where
  "npos = 2 ^ 64 - 1"

primrec index_from :: "char \<Rightarrow> string \<Rightarrow> nat \<Rightarrow> nat" where
  "index_from c [] k = npos"
| "index_from c (x # xs) k = (if x = c then k else index_from c xs (Suc k))"

definition find_char :: "string \<Rightarrow> char \<Rightarrow> nat \<Rightarrow> nat" where
  "find_char s c pos = index_from c (drop pos s) pos"

definition substr :: "string \<Rightarrow> nat \<Rightarrow> nat \<Rightarrow> string" where
  "substr s pos n = take n (drop pos s)"

definition size_t_succ :: "nat \<Rightarrow> nat" where
  "size_t_succ p = (p + 1) mod 2 ^ 64"

text \<open>
  \<open>std::stoul\<close> in base 10, as \<open>strtoul\<close> reads: leading white space, an optional sign,
  then the longest run of digits; whatever follows the digits is ignored. No digit
  throws \<open>std::invalid_argument\<close>, a magnitude beyond \<open>ULONG_MAX\<close> throws
  \<open>std::out_of_range\<close>; a minus sign negates the value in \<open>unsigned long\<close>.
\<close>

definition strip_sign :: "string \<Rightarrow> bool \<times> string" where
  "strip_sign s =
     (case s of
        [] \<Rightarrow> (False, [])
      | c # r \<Rightarrow> if c = CHR ''-'' then (True, r) else if c = CHR ''+'' then (False, r) else (False, s))"

definition stoul :: "string \<Rightarrow> error + ulong" where
  "stoul str =
     (let (neg, s) = strip_sign (dropWhile isspace str);
          ds = takeWhile isdigit s
      in if ds = [] then Inl Invalid_Argument
         else let v = foldl (\<lambda>a d. 10 * a + digit_val d) 0 ds
              in if 2 ^ 64 \<le> v then Inl Out_Of_Range
                 else Inr (if neg then - of_nat v else of_nat v))"

text \<open>
  \<open>ss >> x\<close> for a \<open>float\<close> on a string stream. The stream is its unread characters and
  its fail bit. The conversion of the characters, \<open>std::num_get\<close>, is the parameter
  \<open>rd\<close>: on the unread characters, starting at a non-space one, it has one of three
  outcomes. No number can be read: zero is stored and the fail bit set (C++11). A number
  is read: it is stored. A number is read that no \<open>float\<close> can hold: the value the
  library puts in its place is stored (\<open>FLT_MAX\<close> or \<open>-FLT_MAX\<close>) and the fail bit set.
  A failed stream and a stream at its end leave the target as it was.
\<close>

datatype conversion =
  No_Conversion | Converted cfloat string | Out_Of_Float_Range cfloat string

type_synonym reader = "string \<Rightarrow> conversion"
type_synonym istream = "string \<times> bool"

definition extract_float :: "reader \<Rightarrow> istream \<Rightarrow> cfloat \<Rightarrow> cfloat \<times> istream" where
  "extract_float rd ss cur =
     (case ss of (s, failed) \<Rightarrow>
        if failed then (cur, (s, True))
        else let s' = dropWhile isspace s
             in if s' = [] then (cur, ([], True))
                else (case rd s' of
                        No_Conversion \<Rightarrow> (0, (s', True))
                      | Converted v rest \<Rightarrow> (v, (rest, False))
                      | Out_Of_Float_Range v rest \<Rightarrow> (v, (rest, True))))"

text \<open>
  \<open>glm::vec3 v; ss >> v.x >> v.y >> v.z;\<close> where \<open>vinit\<close> is what the declaration leaves
  in \<open>v\<close> (zero in older GLM, indeterminate in newer).
\<close>

definition read_vec3 :: "reader \<Rightarrow> vec3 \<Rightarrow> string \<Rightarrow> vec3" where
  "read_vec3 rd vinit s =
     (case vinit of (x0, y0, z0) \<Rightarrow>
        let (x, ss1) = extract_float rd (s, False) x0;
            (y, ss2) = extract_float rd ss1 y0;
            (z, ss3) = extract_float rd ss2 z0
        in (x, y, z))"

text \<open>Unchecked \<open>operator[]\<close>: outside the vector the model stops (\<open>None\<close>).\<close>

definition vec_at :: "'a list \<Rightarrow> nat \<Rightarrow> 'a option" where
  "vec_at xs i = (if i < length xs then Some (xs ! i) else None)"

section \<open>\<open>loadOBJ\<close>\<close>

text \<open>Lines 102 to 107: one corner token.\<close>

definition parse_corner :: "string \<Rightarrow> error + (uint \<times> uint)" where
  "parse_corner token =
     (let pos1 = find_char token CHR ''/'' 0;
          pos2 = find_char token CHR ''/'' (size_t_succ pos1)
      in case stoul (substr token 0 pos1) of
           Inl e \<Rightarrow> Inl e
         | Inr a \<Rightarrow>
             (case stoul (substr token (size_t_succ pos2) npos) of
                Inl e \<Rightarrow> Inl e
              | Inr b \<Rightarrow> Inr (ucast (a - 1), ucast (b - 1))))"

text \<open>Lines 101 to 108: the token loop fills \<open>faceVerts\<close> and \<open>faceNormals\<close>.\<close>

fun read_corners :: "string list \<Rightarrow> uint list \<Rightarrow> uint list \<Rightarrow> error + (uint list \<times> uint list)" where
  "read_corners [] faceVerts faceNormals = Inr (faceVerts, faceNormals)"
| "read_corners (t # ts) faceVerts faceNormals =
     (case parse_corner t of
        Inl e \<Rightarrow> Inl e
      | Inr (v, n) \<Rightarrow> read_corners ts (faceVerts @ [v]) (faceNormals @ [n]))"

text \<open>Lines 117 to 122: the loop over \<open>j\<close>, called with \<open>[0, 1, 2]\<close>.\<close>

fun add_normals :: "uint list \<Rightarrow> vec3 list \<Rightarrow> nat list \<Rightarrow> Mesh \<Rightarrow> error + Mesh" where
  "add_normals faceNormals tn [] m = Inr m"
| "add_normals faceNormals tn (j # js) m =
     (case vec_at faceNormals j of
        None \<Rightarrow> Inl Bad_faceNormals
      | Some k \<Rightarrow>
          (case vec_at tn (unat k) of
             None \<Rightarrow> Inl Bad_tempNormals
           | Some (x, y, z) \<Rightarrow>
               add_normals faceNormals tn js (m\<lparr>normals := normals m @ [x, y, z]\<rparr>)))"

text \<open>
  \<open>faceVerts.size() - 1\<close> in \<open>size_t\<close>: at size 0 it wraps around to \<open>SIZE_MAX\<close>.
\<close>

definition loop_bound :: "nat \<Rightarrow> nat" where
  "loop_bound n = (if n = 0 then 2 ^ 64 - 1 else n - 1)"

text \<open>
  Lines 111 to 123: \<open>for (size_t i = 1; i < faceVerts.size() - 1; i++)\<close>. Since
  \<open>i < bound\<close> in the body, \<open>i + 1\<close> does not wrap.
\<close>

function triangulate ::
  "uint list \<Rightarrow> uint list \<Rightarrow> vec3 list \<Rightarrow> nat \<Rightarrow> nat \<Rightarrow> Mesh \<Rightarrow> error + Mesh" where
  "triangulate faceVerts faceNormals tn bound i m =
     (if i < bound then
        (case vec_at faceVerts 0 of
           None \<Rightarrow> Inl Bad_faceVerts
         | Some a \<Rightarrow>
             (case vec_at faceVerts i of
                None \<Rightarrow> Inl Bad_faceVerts
              | Some b \<Rightarrow>
                  (case vec_at faceVerts (i + 1) of
                     None \<Rightarrow> Inl Bad_faceVerts
                   | Some c \<Rightarrow>
                       (case add_normals faceNormals tn [0, 1, 2]
                               (m\<lparr>indices := indices m @ [a, b, c]\<rparr>) of
                          Inl e \<Rightarrow> Inl e
                        | Inr m' \<Rightarrow> triangulate faceVerts faceNormals tn bound (i + 1) m'))))
      else Inr m)"
  by pat_completeness auto
termination
  by (relation "measure (\<lambda>(fv, fn, tn, bound, i, m). bound - i)") auto

declare triangulate.simps [simp del]

text \<open>Lines 84 to 124: the body of the loop over the lines.\<close>

definition process_line :: "reader \<Rightarrow> vec3 \<Rightarrow> loader \<Rightarrow> string \<Rightarrow> error + loader" where
  "process_line rd vinit st line =
     (if substr line 0 2 = ''v '' then
        Inr (st\<lparr>tempVertices := tempVertices st @ [read_vec3 rd vinit (substr line 2 npos)]\<rparr>)
      else if substr line 0 3 = ''vn '' then
        Inr (st\<lparr>tempNormals := tempNormals st @ [read_vec3 rd vinit (substr line 3 npos)]\<rparr>)
      else if substr line 0 2 = ''f '' then
        (case read_corners (tokens (substr line 2 npos)) [] [] of
           Inl e \<Rightarrow> Inl e
         | Inr (faceVerts, faceNormals) \<Rightarrow>
             (case triangulate faceVerts faceNormals (tempNormals st)
                     (loop_bound (length faceVerts)) 1 (mesh st) of
                Inl e \<Rightarrow> Inl e
              | Inr m \<Rightarrow> Inr (st\<lparr>mesh := m\<rparr>)))
      else Inr st)"

fun load_lines :: "reader \<Rightarrow> vec3 \<Rightarrow> loader \<Rightarrow> string list \<Rightarrow> error + loader" where
  "load_lines rd vinit st [] = Inr st"
| "load_lines rd vinit st (l # ls) =
     (case process_line rd vinit st l of
        Inl e \<Rightarrow> Inl e
      | Inr st' \<Rightarrow> load_lines rd vinit st' ls)"

text \<open>Lines 128 to 132: the staging positions, flattened.\<close>

definition flat :: "vec3 \<Rightarrow> cfloat list" where
  "flat v = (case v of (x, y, z) \<Rightarrow> [x, y, z])"

fun add_vertices :: "vec3 list \<Rightarrow> Mesh \<Rightarrow> Mesh" where
  "add_vertices [] m = m"
| "add_vertices (v # vs) m = add_vertices vs (m\<lparr>vertices := vertices m @ flat v\<rparr>)"

definition empty_mesh :: Mesh where
  "empty_mesh = \<lparr>vertices = [], normals = [], indices = [], edgeIndices = []\<rparr>"

definition init_loader :: loader where
  "init_loader = \<lparr>mesh = empty_mesh, tempVertices = [], tempNormals = []\<rparr>"

text \<open>
  \<open>loadOBJ\<close> on the text of the file. A file that cannot be opened gives a stream on
  which the first \<open>std::getline\<close> fails, as the empty text does.
\<close>

definition loadOBJ :: "reader \<Rightarrow> vec3 \<Rightarrow> string \<Rightarrow> error + Mesh" where
  "loadOBJ rd vinit src =
     (case load_lines rd vinit init_loader (getlines src) of
        Inl e \<Rightarrow> Inl e
      | Inr st \<Rightarrow> Inr (add_vertices (tempVertices st) (mesh st)))"

text \<open>
  A reader for the examples: an optional minus sign and a run of decimal digits, read
  as that integer; beyond \<open>FLT_MAX\<close> it is out of range.
\<close>

definition FLT_MAX :: cfloat where
  "FLT_MAX = 340282346638528859811704183484516925440"

definition read_integer :: reader where
  "read_integer s =
     (let (neg, r) = (case s of [] \<Rightarrow> (False, []) | c # t \<Rightarrow> if c = CHR ''-'' then (True, t) else (False, s));
          ds = takeWhile isdigit r
      in if ds = [] then No_Conversion
         else let v = real (foldl (\<lambda>a d. 10 * a + digit_val d) 0 ds)
              in if FLT_MAX < v
                 then Out_Of_Float_Range (if neg then - FLT_MAX else FLT_MAX) (dropWhile isdigit r)
                 else Converted (if neg then - v else v) (dropWhile isdigit r))"

section \<open>The camera update of the frame loop\<close>

record camera =
  angleY :: cfloat
  angleZ :: cfloat
  cameraDistance :: cfloat

text \<open>Which of the keys A, D, W, S, Q, E \<open>glfwGetKey\<close> reports as pressed.\<close>

record keys =
  key_A :: bool
  key_D :: bool
  key_W :: bool
  key_S :: bool
  key_Q :: bool
  key_E :: bool

definition rotationSpeed :: cfloat where
  "rotationSpeed = 2"

definition zoomSpeed :: cfloat where
  "zoomSpeed = 10"

definition minDistance :: cfloat where
  "minDistance = 1.5"

definition maxDistance :: cfloat where
  "maxDistance = 40"

text \<open>\<open>glm::clamp(x, minVal, maxVal)\<close> is \<open>min(max(x, minVal), maxVal)\<close>.\<close>

definition clamp :: "cfloat \<Rightarrow> cfloat \<Rightarrow> cfloat \<Rightarrow> cfloat" where
  "clamp x minVal maxVal = min (max x minVal) maxVal"

text \<open>Lines 256 to 269, in the order of the statements: the keys that are held.\<close>

definition apply_keys :: "keys \<Rightarrow> cfloat \<Rightarrow> camera \<Rightarrow> camera" where
  "apply_keys ks deltaTime c =
     (let c1 = (if key_A ks then c\<lparr>angleY := angleY c + rotationSpeed * deltaTime\<rparr> else c);
          c2 = (if key_D ks then c1\<lparr>angleY := angleY c1 - rotationSpeed * deltaTime\<rparr> else c1);
          c3 = (if key_W ks then c2\<lparr>angleZ := angleZ c2 + rotationSpeed * deltaTime\<rparr> else c2);
          c4 = (if key_S ks then c3\<lparr>angleZ := angleZ c3 - rotationSpeed * deltaTime\<rparr> else c3);
          c5 = (if key_Q ks then c4\<lparr>cameraDistance := cameraDistance c4 - zoomSpeed * deltaTime\<rparr> else c4)
      in (if key_E ks then c5\<lparr>cameraDistance := cameraDistance c5 + zoomSpeed * deltaTime\<rparr> else c5))"

text \<open>Lines 256 to 272: the keys, then the clamp of line 272.\<close>

definition update_camera :: "keys \<Rightarrow> cfloat \<Rightarrow> camera \<Rightarrow> camera" where
  "update_camera ks deltaTime c =
     (let c' = apply_keys ks deltaTime c
      in c'\<lparr>cameraDistance := clamp (cameraDistance c') minDistance maxDistance\<rparr>)"

text \<open>The same keys held over several frames, one elapsed time per frame.\<close>

fun run_frames :: "keys \<Rightarrow> cfloat list \<Rightarrow> camera \<Rightarrow> camera" where
  "run_frames ks [] c = c"
| "run_frames ks (dt # dts) c = run_frames ks dts (update_camera ks dt c)"

section \<open>Auxiliary notions for the statements\<close>

text \<open>A source text from its lines, each ended by a newline.\<close>

definition text_of :: "string list \<Rightarrow> string" where
  "text_of ls = concat (map (\<lambda>l. l @ [CHR 0x0A]) ls)"

text \<open>A conversion that sets the fail bit, and the value it stores.\<close>

definition fails_storing :: "conversion \<Rightarrow> cfloat \<Rightarrow> bool" where
  "fails_storing r w =
     (case r of
        No_Conversion \<Rightarrow> w = 0
      | Converted v rest \<Rightarrow> False
      | Out_Of_Float_Range v rest \<Rightarrow> w = v)"

text \<open>
  The invariant of the loop over the lines: whole triangles, three floats of normal for
  each index, and every normal in the mesh is one of the staging list.
\<close>

definition draw_inv :: "loader \<Rightarrow> bool" where
  "draw_inv st \<longleftrightarrow>
     length (indices (mesh st)) mod 3 = 0
     \<and> length (normals (mesh st)) = 3 * length (indices (mesh st))
     \<and> (\<exists>vs. normals (mesh st) = concat (map flat vs) \<and> set vs \<subseteq> set (tempNormals st))"

section \<open>Strings and numbers\<close>

lemmas eval_defs = loadOBJ_def getlines_def init_loader_def empty_mesh_def process_line_def
  substr_def npos_def read_vec3_def extract_float_def isspace_def read_integer_def isdigit_def
  digit_val_def tokens_def parse_corner_def find_char_def size_t_succ_def stoul_def
  strip_sign_def loop_bound_def triangulate.simps vec_at_def flat_def text_of_def FLT_MAX_def

lemma index_from_bound:
  "index_from c s k = npos \<or> (k \<le> index_from c s k \<and> index_from c s k < k + length s)"
proof (induction s arbitrary: k)
  case Nil
  then show ?case by simp
next
  case (Cons x xs)
  from Cons.IH [of "Suc k"] show ?case by auto
qed

lemma index_from_absent: "c \<notin> set s \<Longrightarrow> index_from c s k = npos"
  by (induction s arbitrary: k) auto

lemma find_char_bound:
  "find_char s c pos = npos \<or> (pos \<le> find_char s c pos \<and> find_char s c pos < length s)"
proof (cases "pos \<le> length s")
  case True
  with index_from_bound [of c "drop pos s" pos] show ?thesis
    by (auto simp: find_char_def)
next
  case False
  then show ?thesis by (simp add: find_char_def)
qed

lemma size_t_succ_npos: "size_t_succ npos = 0"
  by (simp add: size_t_succ_def npos_def)

lemma substr_start_in_range:
  assumes "length s < 2 ^ 64"
  shows "size_t_succ (find_char s c pos) \<le> length s"
proof -
  from find_char_bound [of s c pos] show ?thesis
  proof
    assume "find_char s c pos = npos"
    then show ?thesis by (simp add: size_t_succ_npos)
  next
    assume h: "pos \<le> find_char s c pos \<and> find_char s c pos < length s"
    then have "find_char s c pos + 1 < 2 ^ 64" using assms by linarith
    then have "size_t_succ (find_char s c pos) = find_char s c pos + 1"
      by (simp add: size_t_succ_def)
    with h show ?thesis by simp
  qed
qed

lemma stoul_error: "stoul s = Inl e \<Longrightarrow> e = Invalid_Argument \<or> e = Out_Of_Range"
  by (auto simp: stoul_def Let_def split: prod.splits if_splits)

lemma parse_corner_error: "parse_corner t = Inl e \<Longrightarrow> e = Invalid_Argument \<or> e = Out_Of_Range"
  by (auto simp: parse_corner_def Let_def split: sum.splits dest: stoul_error)

lemma read_corners_error:
  "read_corners ts fv fn = Inl e \<Longrightarrow> e = Invalid_Argument \<or> e = Out_Of_Range"
proof (induction ts arbitrary: fv fn)
  case Nil
  then show ?case by simp
next
  case (Cons t ts)
  show ?case
  proof (cases "parse_corner t")
    case (Inl e')
    with Cons.prems have "e = e'" by simp
    with parse_corner_error [OF Inl] show ?thesis by simp
  next
    case (Inr p)
    obtain v n where p: "p = (v, n)" by (cases p)
    from Cons.prems Inr p have "read_corners ts (fv @ [v]) (fn @ [n]) = Inl e" by simp
    from Cons.IH [OF this] show ?thesis .
  qed
qed

lemma parse_corner_no_slash:
  assumes "CHR ''/'' \<notin> set t" and "length t < 2 ^ 64" and "stoul t = Inr a"
  shows "parse_corner t = Inr (ucast (a - 1), ucast (a - 1))"
proof -
  from assms(1) have p: "find_char t CHR ''/'' 0 = npos"
    by (simp add: find_char_def index_from_absent)
  from assms(2) have s: "substr t 0 npos = t"
    by (simp add: substr_def npos_def)
  from p s assms(3) show ?thesis
    by (simp add: parse_corner_def size_t_succ_npos)
qed


section \<open>The loops of the face branch\<close>

lemma add_normals_Inr:
  "add_normals fn tn js m = Inr m' \<Longrightarrow>
     m' = m\<lparr>normals := normals m @ concat (map (\<lambda>j. flat (tn ! unat (fn ! j))) js)\<rparr>
     \<and> (\<forall>j \<in> set js. j < length fn \<and> unat (fn ! j) < length tn)"
proof (induction js arbitrary: m)
  case Nil
  then show ?case by simp
next
  case (Cons j js)
  from Cons.prems have j1: "j < length fn"
    by (simp add: vec_at_def split: if_splits)
  from Cons.prems j1 have j2: "unat (fn ! j) < length tn"
    by (simp add: vec_at_def split: if_splits)
  obtain x y z where v: "tn ! unat (fn ! j) = (x, y, z)"
    by (cases "tn ! unat (fn ! j)") auto
  from Cons.prems j1 j2 v
  have "add_normals fn tn js (m\<lparr>normals := normals m @ [x, y, z]\<rparr>) = Inr m'"
    by (simp add: vec_at_def)
  from Cons.IH [OF this] j1 j2 v show ?case
    by (simp add: flat_def)
qed

lemma add_normals_total:
  "\<forall>j \<in> set js. j < length fn \<and> unat (fn ! j) < length tn \<Longrightarrow>
     \<exists>m'. add_normals fn tn js m = Inr m'"
proof (induction js arbitrary: m)
  case Nil
  then show ?case by simp
next
  case (Cons j js)
  obtain x y z where v: "tn ! unat (fn ! j) = (x, y, z)"
    by (cases "tn ! unat (fn ! j)") auto
  from Cons.prems have "\<forall>j \<in> set js. j < length fn \<and> unat (fn ! j) < length tn"
    by simp
  from Cons.IH [OF this, of "m\<lparr>normals := normals m @ [x, y, z]\<rparr>"] Cons.prems v
  show ?case by (simp add: vec_at_def)
qed

lemma add_normals_error:
  "add_normals fn tn js m = Inl e \<Longrightarrow>
     (e = Bad_faceNormals \<and> (\<exists>j \<in> set js. length fn \<le> j)) \<or> e = Bad_tempNormals"
proof (induction js arbitrary: m)
  case Nil
  then show ?case by simp
next
  case (Cons j js)
  show ?case
  proof (cases "j < length fn")
    case False
    with Cons.prems show ?thesis by (simp add: vec_at_def)
  next
    case True
    note j1 = this
    show ?thesis
    proof (cases "unat (fn ! j) < length tn")
      case False
      with Cons.prems j1 show ?thesis by (simp add: vec_at_def)
    next
      case True
      obtain x y z where v: "tn ! unat (fn ! j) = (x, y, z)"
        by (cases "tn ! unat (fn ! j)") auto
      from Cons.prems j1 True v
      have "add_normals fn tn js (m\<lparr>normals := normals m @ [x, y, z]\<rparr>) = Inl e"
        by (simp add: vec_at_def)
      from Cons.IH [OF this] show ?thesis by auto
    qed
  qed
qed

lemma triangulate_Inr:
  "triangulate fv fn tn bound i m = Inr m' \<Longrightarrow>
     indices m' = indices m @ concat (map (\<lambda>k. [fv ! 0, fv ! k, fv ! (k + 1)]) [i ..< bound])
     \<and> normals m' = normals m @
          concat (replicate (bound - i) (concat (map (\<lambda>j. flat (tn ! unat (fn ! j))) [0, 1, 2])))
     \<and> vertices m' = vertices m \<and> edgeIndices m' = edgeIndices m
     \<and> (i < bound \<longrightarrow> bound < length fv \<and> (\<forall>j \<in> {0, 1, 2}. j < length fn \<and> unat (fn ! j) < length tn))"
proof (induction fv fn tn bound i m rule: triangulate.induct)
  case (1 fv fn tn bound i m)
  show ?case
  proof (cases "i < bound")
    case False
    with "1.prems" show ?thesis by (simp add: triangulate.simps)
  next
    case True
    from "1.prems" True obtain a where a: "vec_at fv 0 = Some a"
      by (subst (asm) triangulate.simps) (auto split: option.splits)
    from "1.prems" True a obtain b where b: "vec_at fv i = Some b"
      by (subst (asm) triangulate.simps) (auto split: option.splits)
    from "1.prems" True a b obtain c where c: "vec_at fv (i + 1) = Some c"
      by (subst (asm) triangulate.simps) (auto split: option.splits)
    from "1.prems" True a b c obtain m1 where
      m1: "add_normals fn tn [0, 1, 2] (m\<lparr>indices := indices m @ [a, b, c]\<rparr>) = Inr m1"
      by (subst (asm) triangulate.simps) (auto split: sum.splits)
    from "1.prems" True a b c m1 have rec: "triangulate fv fn tn bound (i + 1) m1 = Inr m'"
      by (subst (asm) triangulate.simps) simp
    note ih = "1.IH" [OF True a b c m1 rec]
    note an = add_normals_Inr [OF m1]
    from a have a': "a = fv ! 0" by (simp add: vec_at_def split: if_splits)
    from b have b': "b = fv ! i" by (simp add: vec_at_def split: if_splits)
    from c have c': "c = fv ! (i + 1)" and c'': "i + 1 < length fv"
      by (simp_all add: vec_at_def split: if_splits)
    have upt: "[i ..< bound] = i # [i + 1 ..< bound]"
      using True by (simp add: upt_conv_Cons)
    have rep: "bound - i = Suc (bound - (i + 1))"
      using True by simp
    have idx: "indices m' = indices m @ concat (map (\<lambda>k. [fv ! 0, fv ! k, fv ! (k + 1)]) [i ..< bound])"
      using ih an a' b' c' by (simp add: upt)
    have nrm: "normals m' = normals m @
          concat (replicate (bound - i) (concat (map (\<lambda>j. flat (tn ! unat (fn ! j))) [0, 1, 2])))"
      using ih an by (simp add: rep)
    have rest: "vertices m' = vertices m \<and> edgeIndices m' = edgeIndices m"
      using ih an by simp
    have bnd: "bound < length fv"
    proof (cases "i + 1 < bound")
      case True
      with ih show ?thesis by simp
    next
      case False
      with \<open>i < bound\<close> have "bound = i + 1" by simp
      with c'' show ?thesis by simp
    qed
    from an have rng: "\<forall>j \<in> {0, 1, 2}. j < length fn \<and> unat (fn ! j) < length tn"
      by simp
    from idx nrm rest bnd rng show ?thesis by blast
  qed
qed

lemma triangulate_step:
  assumes "i < bound" and "bound < length fv"
  shows "triangulate fv fn tn bound i m =
      (case add_normals fn tn [0, 1, 2] (m\<lparr>indices := indices m @ [fv ! 0, fv ! i, fv ! (i + 1)]\<rparr>) of
         Inl e \<Rightarrow> Inl e
       | Inr m1 \<Rightarrow> triangulate fv fn tn bound (i + 1) m1)"
proof -
  from assms have "fv \<noteq> []" and "i < length fv" and "Suc i < length fv"
    by auto
  with assms(1) show ?thesis
    by (subst triangulate.simps) (simp add: vec_at_def del: add_normals.simps)
qed

lemma triangulate_total:
  assumes "bound < length fv"
    and "\<forall>j \<in> {0, 1, 2}. j < length fn \<and> unat (fn ! j) < length tn"
  shows "\<exists>m'. triangulate fv fn tn bound i m = Inr m'"
proof (induction "bound - i" arbitrary: i m)
  case 0
  then show ?case by (simp add: triangulate.simps)
next
  case (Suc d)
  then have lt: "i < bound" by simp
  let ?m0 = "m\<lparr>indices := indices m @ [fv ! 0, fv ! i, fv ! (i + 1)]\<rparr>"
  from assms(2) have "\<forall>j \<in> set [0, 1, 2]. j < length fn \<and> unat (fn ! j) < length tn"
    by simp
  from add_normals_total [OF this] obtain m1 where
    m1: "add_normals fn tn [0, 1, 2] ?m0 = Inr m1" by blast
  from Suc have "d = bound - (i + 1)" by simp
  from Suc.hyps(1) [OF this] obtain m' where rec: "triangulate fv fn tn bound (i + 1) m1 = Inr m'"
    by blast
  have unf: "triangulate fv fn tn bound i m =
      (case add_normals fn tn [0, 1, 2] ?m0 of
         Inl e \<Rightarrow> Inl e
       | Inr m1 \<Rightarrow> triangulate fv fn tn bound (i + 1) m1)"
    using lt assms(1) by (rule triangulate_step)
  have "triangulate fv fn tn bound i m = Inr m'"
    by (simp only: unf m1 sum.case rec)
  then show ?case by blast
qed

lemma triangulate_done: "bound \<le> i \<Longrightarrow> triangulate fv fn tn bound i m = Inr m"
  by (simp add: triangulate.simps)

lemma triangulate_face_accesses:
  assumes "fv \<noteq> []" and "length fn = length fv" and "bound = length fv - 1"
  shows "1 \<le> i \<Longrightarrow> triangulate fv fn tn bound i m \<noteq> Inl Bad_faceVerts
           \<and> triangulate fv fn tn bound i m \<noteq> Inl Bad_faceNormals"
proof (induction "bound - i" arbitrary: i m)
  case 0
  then show ?case by (simp add: triangulate.simps)
next
  case (Suc d)
  then have lt: "i < bound" by simp
  with assms have in2: "bound < length fv"
    by simp
  let ?m0 = "m\<lparr>indices := indices m @ [fv ! 0, fv ! i, fv ! (i + 1)]\<rparr>"
  have unf: "triangulate fv fn tn bound i m =
      (case add_normals fn tn [0, 1, 2] ?m0 of
         Inl e \<Rightarrow> Inl e
       | Inr m1 \<Rightarrow> triangulate fv fn tn bound (i + 1) m1)"
    using lt in2 by (rule triangulate_step)
  show ?case
  proof (cases "add_normals fn tn [0, 1, 2] ?m0")
    case (Inl e)
    from add_normals_error [OF Inl] Suc.prems lt assms have "e = Bad_tempNormals"
      by auto
    with unf Inl show ?thesis by simp
  next
    case (Inr m1)
    from Suc have d: "d = bound - (i + 1)" by simp
    from Suc.hyps(1) [OF d, of m1] unf Inr show ?thesis by simp
  qed
qed

section \<open>Lines and the loop over them\<close>

lemma read_corners_length:
  "read_corners ts fv fn = Inr (fv', fn') \<Longrightarrow>
     length fv' = length fv + length ts \<and> length fn' = length fn + length ts"
proof (induction ts arbitrary: fv fn)
  case Nil
  then show ?case by simp
next
  case (Cons t ts)
  from Cons.prems obtain v n where "parse_corner t = Inr (v, n)"
    and "read_corners ts (fv @ [v]) (fn @ [n]) = Inr (fv', fn')"
    by (auto split: sum.splits)
  from Cons.IH [OF this(2)] show ?case by simp
qed

lemma read_corners_fail:
  "t \<in> set ts \<Longrightarrow> parse_corner t = Inl e \<Longrightarrow> \<exists>e'. read_corners ts fv fn = Inl e'"
proof (induction ts arbitrary: fv fn)
  case Nil
  then show ?case by simp
next
  case (Cons u ts)
  show ?case
  proof (cases "parse_corner u")
    case (Inl e')
    then show ?thesis by simp
  next
    case (Inr p)
    with Cons.prems have "t \<in> set ts" by auto
    from Cons.IH [OF this Cons.prems(2)] Inr show ?thesis
      by (cases p) simp
  qed
qed

lemma vn_line_not_v: "substr line 0 3 = ''vn '' \<Longrightarrow> substr line 0 2 \<noteq> ''v ''"
proof
  assume a: "substr line 0 3 = ''vn ''" and b: "substr line 0 2 = ''v ''"
  have "take 2 (take 3 line) = take 2 line" by simp
  with a b show False by (simp add: substr_def)
qed

lemma f_line_not_v: "substr line 0 2 = ''f '' \<Longrightarrow> substr line 0 2 \<noteq> ''v ''"
  by simp

lemma f_line_not_vn: "substr line 0 2 = ''f '' \<Longrightarrow> substr line 0 3 \<noteq> ''vn ''"
proof
  assume a: "substr line 0 2 = ''f ''" and b: "substr line 0 3 = ''vn ''"
  have "take 2 (take 3 line) = take 2 line" by simp
  with a b show False by (simp add: substr_def)
qed

lemma process_line_v:
  "substr line 0 2 = ''v '' \<Longrightarrow>
     process_line rd vinit st line =
       Inr (st\<lparr>tempVertices := tempVertices st @ [read_vec3 rd vinit (substr line 2 npos)]\<rparr>)"
  by (simp add: process_line_def)

lemma process_line_vn:
  "substr line 0 3 = ''vn '' \<Longrightarrow>
     process_line rd vinit st line =
       Inr (st\<lparr>tempNormals := tempNormals st @ [read_vec3 rd vinit (substr line 3 npos)]\<rparr>)"
  using vn_line_not_v [of line] by (simp add: process_line_def)

lemma process_line_other:
  "substr line 0 2 \<noteq> ''v '' \<Longrightarrow> substr line 0 3 \<noteq> ''vn '' \<Longrightarrow> substr line 0 2 \<noteq> ''f '' \<Longrightarrow>
     process_line rd vinit st line = Inr st"
  by (simp add: process_line_def)

lemma process_line_f:
  "substr line 0 2 = ''f '' \<Longrightarrow>
     process_line rd vinit st line =
       (case read_corners (tokens (substr line 2 npos)) [] [] of
           Inl e \<Rightarrow> Inl e
         | Inr (faceVerts, faceNormals) \<Rightarrow>
             (case triangulate faceVerts faceNormals (tempNormals st)
                     (loop_bound (length faceVerts)) 1 (mesh st) of
                Inl e \<Rightarrow> Inl e
              | Inr m \<Rightarrow> Inr (st\<lparr>mesh := m\<rparr>)))"
  using f_line_not_vn [of line] by (simp add: process_line_def)

lemma length_concat_triples:
  "length (concat (map (\<lambda>k. [f k, g k, h k]) xs)) = 3 * length xs"
  by (induction xs) simp_all

lemma length_concat_replicate:
  "length (concat (replicate n xs)) = n * length xs"
  by (induction n) simp_all

lemma concat_flat_replicate:
  "concat (map flat (concat (replicate n vs))) = concat (replicate n (concat (map flat vs)))"
  by (induction n) simp_all

lemma length_flat: "length (flat v) = 3"
  by (cases v) (simp add: flat_def)

lemma length_concat_flat: "length (concat (map flat vs)) = 3 * length vs"
  by (induction vs) (simp_all add: length_flat)

text \<open>What a face line that is accepted does to the loader.\<close>

lemma process_line_f_Inr:
  assumes f: "substr line 0 2 = ''f ''"
    and ok: "process_line rd vinit st line = Inr st'"
  shows "\<exists>fv fn m' vs.
           read_corners (tokens (substr line 2 npos)) [] [] = Inr (fv, fn)
         \<and> st' = st\<lparr>mesh := m'\<rparr>
         \<and> indices m' = indices (mesh st) @
              concat (map (\<lambda>k. [fv ! 0, fv ! k, fv ! (k + 1)]) [1 ..< loop_bound (length fv)])
         \<and> normals m' = normals (mesh st) @ concat (map flat vs)
         \<and> length vs = 3 * (loop_bound (length fv) - 1)
         \<and> set vs \<subseteq> set (tempNormals st)
         \<and> vertices m' = vertices (mesh st) \<and> edgeIndices m' = edgeIndices (mesh st)"
proof -
  from ok f obtain fv fn where rc: "read_corners (tokens (substr line 2 npos)) [] [] = Inr (fv, fn)"
    by (auto simp: process_line_f split: sum.splits)
  let ?b = "loop_bound (length fv)"
  let ?tn = "tempNormals st"
  from ok f rc obtain m' where tri: "triangulate fv fn ?tn ?b 1 (mesh st) = Inr m'"
    and st': "st' = st\<lparr>mesh := m'\<rparr>"
    by (auto simp: process_line_f split: sum.splits)
  note t = triangulate_Inr [OF tri]
  let ?three = "[?tn ! unat (fn ! 0), ?tn ! unat (fn ! 1), ?tn ! unat (fn ! 2)]"
  let ?vs = "concat (replicate (?b - 1) ?three)"
  have n1: "normals m' = normals (mesh st) @ concat (map flat ?vs)"
    using t by (simp add: concat_flat_replicate)
  have n2: "length ?vs = 3 * (?b - 1)"
    by (simp add: length_concat_replicate)
  have n3: "set ?vs \<subseteq> set ?tn"
  proof (cases "1 < ?b")
    case True
    with t have "\<forall>j \<in> {0, 1, 2}. unat (fn ! j) < length ?tn" by simp
    then have "set ?three \<subseteq> set ?tn" by simp
    then show ?thesis by auto
  next
    case False
    then have "?b - 1 = 0" by simp
    then show ?thesis by simp
  qed
  from rc st' t n1 n2 n3 show ?thesis by blast
qed

lemma triangulate_error:
  "triangulate fv fn tn bound i m = Inl e \<Longrightarrow>
     e = Bad_faceVerts \<or> e = Bad_faceNormals \<or> e = Bad_tempNormals"
proof (induction fv fn tn bound i m rule: triangulate.induct)
  case (1 fv fn tn bound i m)
  note unf = triangulate.simps [of fv fn tn bound i m]
  show ?case
  proof (cases "i < bound")
    case False
    with "1.prems" show ?thesis by (simp add: unf)
  next
    case True
    show ?thesis
    proof (cases "vec_at fv 0")
      case None
      with "1.prems" True show ?thesis by (simp add: unf)
    next
      case (Some a)
      note a = this
      show ?thesis
      proof (cases "vec_at fv i")
        case None
        with "1.prems" True a show ?thesis by (simp add: unf)
      next
        case (Some b)
        note b = this
        show ?thesis
        proof (cases "vec_at fv (i + 1)")
          case None
          with "1.prems" True a b show ?thesis by (simp add: unf)
        next
          case (Some c)
          note c = this
          show ?thesis
          proof (cases "add_normals fn tn [0, 1, 2] (m\<lparr>indices := indices m @ [a, b, c]\<rparr>)")
            case (Inl e')
            with "1.prems" True a b c have "e = e'"
              by (simp add: unf del: add_normals.simps)
            with add_normals_error [OF Inl] show ?thesis by blast
          next
            case (Inr m1)
            with "1.prems" True a b c have "triangulate fv fn tn bound (i + 1) m1 = Inl e"
              by (simp add: unf del: add_normals.simps)
            from "1.IH" [OF True a b c Inr this] show ?thesis .
          qed
        qed
      qed
    qed
  qed
qed

lemma process_line_staging:
  assumes "process_line rd vinit st l = Inr st'"
  shows "tempVertices st' = tempVertices st @
           map (\<lambda>l. read_vec3 rd vinit (substr l 2 npos)) (filter (\<lambda>l. substr l 0 2 = ''v '') [l])
       \<and> tempNormals st' = tempNormals st @
           map (\<lambda>l. read_vec3 rd vinit (substr l 3 npos)) (filter (\<lambda>l. substr l 0 3 = ''vn '') [l])
       \<and> vertices (mesh st') = vertices (mesh st)"
proof -
  consider (v) "substr l 0 2 = ''v ''" | (vn) "substr l 0 3 = ''vn ''" | (f) "substr l 0 2 = ''f ''"
    | (other) "substr l 0 2 \<noteq> ''v ''" "substr l 0 3 \<noteq> ''vn ''" "substr l 0 2 \<noteq> ''f ''"
    by blast
  then show ?thesis
  proof cases
    case v
    with assms vn_line_not_v [of l] show ?thesis by (auto simp: process_line_v)
  next
    case vn
    with assms vn_line_not_v [of l] show ?thesis by (auto simp: process_line_vn)
  next
    case f
    from process_line_f_Inr [OF f assms] f f_line_not_vn [OF f] show ?thesis by auto
  next
    case other
    with assms show ?thesis by (simp add: process_line_other)
  qed
qed

lemma load_lines_staging:
  "load_lines rd vinit st ls = Inr st' \<Longrightarrow>
     tempVertices st' = tempVertices st @
           map (\<lambda>l. read_vec3 rd vinit (substr l 2 npos)) (filter (\<lambda>l. substr l 0 2 = ''v '') ls)
       \<and> tempNormals st' = tempNormals st @
           map (\<lambda>l. read_vec3 rd vinit (substr l 3 npos)) (filter (\<lambda>l. substr l 0 3 = ''vn '') ls)
       \<and> vertices (mesh st') = vertices (mesh st)"
proof (induction ls arbitrary: st)
  case Nil
  then show ?case by simp
next
  case (Cons l ls)
  from Cons.prems obtain st1 where s1: "process_line rd vinit st l = Inr st1"
    and s2: "load_lines rd vinit st1 ls = Inr st'"
    by (auto split: sum.splits)
  from process_line_staging [OF s1] Cons.IH [OF s2] show ?case
    by (cases "substr l 0 2 = ''v ''"; cases "substr l 0 3 = ''vn ''") simp_all
qed

lemma process_line_inv:
  assumes inv: "draw_inv st" and ok: "process_line rd vinit st l = Inr st'"
  shows "draw_inv st'"
proof -
  consider (v) "substr l 0 2 = ''v ''" | (vn) "substr l 0 3 = ''vn ''" | (f) "substr l 0 2 = ''f ''"
    | (other) "substr l 0 2 \<noteq> ''v ''" "substr l 0 3 \<noteq> ''vn ''" "substr l 0 2 \<noteq> ''f ''"
    by blast
  then show ?thesis
  proof cases
    case v
    with ok have "st' = st\<lparr>tempVertices := tempVertices st @ [read_vec3 rd vinit (substr l 2 npos)]\<rparr>"
      by (simp add: process_line_v)
    with inv show ?thesis by (simp add: draw_inv_def)
  next
    case vn
    with ok have "st' = st\<lparr>tempNormals := tempNormals st @ [read_vec3 rd vinit (substr l 3 npos)]\<rparr>"
      by (simp add: process_line_vn)
    with inv show ?thesis by (auto simp: draw_inv_def)
  next
    case f
    from process_line_f_Inr [OF f ok] obtain fv and fn :: "uint list" and m' vs where
      st': "st' = st\<lparr>mesh := m'\<rparr>"
      and i: "indices m' = indices (mesh st) @
              concat (map (\<lambda>k. [fv ! 0, fv ! k, fv ! (k + 1)]) [1 ..< loop_bound (length fv)])"
      and n: "normals m' = normals (mesh st) @ concat (map flat vs)"
      and l: "length vs = 3 * (loop_bound (length fv) - 1)"
      and s: "set vs \<subseteq> set (tempNormals st)"
      by blast
    from i have li: "length (indices m') = length (indices (mesh st)) + 3 * (loop_bound (length fv) - 1)"
      by (simp add: length_concat_triples)
    from n l have ln: "length (normals m') = length (normals (mesh st)) + 9 * (loop_bound (length fv) - 1)"
      by (simp add: length_concat_flat)
    from inv obtain ws where w: "normals (mesh st) = concat (map flat ws)"
      and ws: "set ws \<subseteq> set (tempNormals st)"
      by (auto simp: draw_inv_def)
    from w n have "normals m' = concat (map flat (ws @ vs))" by simp
    moreover from ws s have "set (ws @ vs) \<subseteq> set (tempNormals st)" by simp
    ultimately have ex: "\<exists>us. normals m' = concat (map flat us) \<and> set us \<subseteq> set (tempNormals st)"
      by blast
    from inv li have m3: "length (indices m') mod 3 = 0"
      by (simp add: draw_inv_def)
    from inv li ln have eq: "length (normals m') = 3 * length (indices m')"
      by (simp add: draw_inv_def)
    from st' m3 eq ex show ?thesis by (simp add: draw_inv_def)
  next
    case other
    with ok inv show ?thesis by (simp add: process_line_other)
  qed
qed

lemma load_lines_inv:
  "draw_inv st \<Longrightarrow> load_lines rd vinit st ls = Inr st' \<Longrightarrow> draw_inv st'"
proof (induction ls arbitrary: st)
  case Nil
  then show ?case by simp
next
  case (Cons l ls)
  from Cons.prems(2) obtain st1 where s1: "process_line rd vinit st l = Inr st1"
    and s2: "load_lines rd vinit st1 ls = Inr st'"
    by (auto split: sum.splits)
  from Cons.IH [OF process_line_inv [OF Cons.prems(1) s1] s2] show ?case .
qed

lemma draw_inv_init: "draw_inv init_loader"
  by (simp add: draw_inv_def init_loader_def empty_mesh_def)

lemma add_vertices_eq:
  "add_vertices vs m = m\<lparr>vertices := vertices m @ concat (map flat vs)\<rparr>"
  by (induction vs arbitrary: m) simp_all

lemma concat_flat_nth:
  "k < length vs \<Longrightarrow>
     (concat (map flat vs) ! (3 * k), concat (map flat vs) ! (3 * k + 1),
      concat (map flat vs) ! (3 * k + 2)) = vs ! k"
proof (induction vs arbitrary: k)
  case Nil
  then show ?case by simp
next
  case (Cons v vs)
  show ?case
  proof (cases k)
    case 0
    then show ?thesis by (cases v) (simp add: flat_def)
  next
    case (Suc j)
    with Cons.prems have j: "j < length vs" by simp
    from Cons.IH [OF j] show ?thesis
      unfolding Suc by (simp add: nth_append length_flat)
  qed
qed

lemma process_line_not_face:
  "substr l 0 2 \<noteq> ''f '' \<Longrightarrow> \<exists>st'. process_line rd vinit st l = Inr st'"
  by (simp add: process_line_def)

lemma load_lines_no_face:
  "\<forall>l \<in> set ls. substr l 0 2 \<noteq> ''f '' \<Longrightarrow> \<exists>st'. load_lines rd vinit st ls = Inr st'"
proof (induction ls arbitrary: st)
  case Nil
  then show ?case by simp
next
  case (Cons l ls)
  from Cons.prems have "substr l 0 2 \<noteq> ''f ''" by simp
  from process_line_not_face [OF this] obtain st1 where
    s1: "process_line rd vinit st l = Inr st1" by blast
  from Cons.prems have "\<forall>l \<in> set ls. substr l 0 2 \<noteq> ''f ''" by simp
  from Cons.IH [OF this, of st1] s1 show ?case by simp
qed

lemma load_lines_fail:
  "l \<in> set ls \<Longrightarrow> (\<And>st. \<exists>e. process_line rd vinit st l = Inl e) \<Longrightarrow>
     \<exists>e. load_lines rd vinit st ls = Inl e"
proof (induction ls arbitrary: st)
  case Nil
  then show ?case by simp
next
  case (Cons u ls)
  show ?case
  proof (cases "process_line rd vinit st u")
    case (Inl e)
    then show ?thesis by simp
  next
    case (Inr st1)
    with Cons.prems(2) [of st] have "u \<noteq> l" by auto
    with Cons.prems(1) have "l \<in> set ls" by simp
    from Cons.IH [OF this Cons.prems(2), of st1] Inr show ?thesis by simp
  qed
qed

lemma loop_bound_pos: "0 < n \<Longrightarrow> loop_bound n = n - 1"
  by (simp add: loop_bound_def)

section \<open>Fan triangulation\<close>

text \<open>
  Claim C2. A face line whose corner tokens convert to the position indices \<open>fv\<close>, with
  \<open>n = length fv\<close> at least 3, appends to \<open>indices\<close> exactly the \<open>n - 2\<close> triples
  \<open>(fv ! 0, fv ! i, fv ! (i + 1))\<close> for \<open>i = 1, ..., n - 2\<close>, in that order, whenever the
  line is accepted; and it is accepted when every normal index of the face lies in the
  staging list. The face \<open>f 1//1 2//1 3//1 4//1\<close> gives \<open>(0, 1, 2)\<close> and \<open>(0, 2, 3)\<close>.
\<close>

theorem C2_fan_triangulation:
  assumes "substr line 0 2 = ''f ''"
    and "read_corners (tokens (substr line 2 npos)) [] [] = Inr (fv, fn)"
    and "3 \<le> length fv"
  shows "(\<forall>st'. process_line rd vinit st line = Inr st' \<longrightarrow>
            indices (mesh st') = indices (mesh st) @
              concat (map (\<lambda>i. [fv ! 0, fv ! i, fv ! (i + 1)]) [1 ..< length fv - 1]))
       \<and> length (concat (map (\<lambda>i. [fv ! 0, fv ! i, fv ! (i + 1)]) [1 ..< length fv - 1]))
           = 3 * (length fv - 2)
       \<and> ((\<forall>k < length fn. unat (fn ! k) < length (tempNormals st)) \<longrightarrow>
            (\<exists>st'. process_line rd vinit st line = Inr st'))"
proof -
  from assms(3) have lb: "loop_bound (length fv) = length fv - 1"
    by (auto simp: loop_bound_def)
  from read_corners_length [OF assms(2)] have len: "length fn = length fv" by simp
  have a: "\<forall>st'. process_line rd vinit st line = Inr st' \<longrightarrow>
            indices (mesh st') = indices (mesh st) @
              concat (map (\<lambda>i. [fv ! 0, fv ! i, fv ! (i + 1)]) [1 ..< length fv - 1])"
  proof (intro allI impI)
    fix st'
    assume ok: "process_line rd vinit st line = Inr st'"
    from process_line_f_Inr [OF assms(1) ok] assms(2) lb show
      "indices (mesh st') = indices (mesh st) @
         concat (map (\<lambda>i. [fv ! 0, fv ! i, fv ! (i + 1)]) [1 ..< length fv - 1])"
      by auto
  qed
  have b: "length (concat (map (\<lambda>i. [fv ! 0, fv ! i, fv ! (i + 1)]) [1 ..< length fv - 1]))
           = 3 * (length fv - 2)"
    by (simp add: length_concat_triples)
  have c: "(\<forall>k < length fn. unat (fn ! k) < length (tempNormals st)) \<longrightarrow>
            (\<exists>st'. process_line rd vinit st line = Inr st')"
  proof
    assume r: "\<forall>k < length fn. unat (fn ! k) < length (tempNormals st)"
    have rng: "\<forall>j \<in> {0, 1, 2}. j < length fn \<and> unat (fn ! j) < length (tempNormals st)"
    proof
      fix j :: nat
      assume "j \<in> {0, 1, 2}"
      then have "j \<le> 2" by auto
      with assms(3) len have "j < length fn" by linarith
      with r show "j < length fn \<and> unat (fn ! j) < length (tempNormals st)" by simp
    qed
    from assms(3) have bnd: "length fv - 1 < length fv" by linarith
    from triangulate_total [OF bnd rng] obtain m' where
      "triangulate fv fn (tempNormals st) (length fv - 1) 1 (mesh st) = Inr m'"
      by blast
    with assms(1,2) lb show "\<exists>st'. process_line rd vinit st line = Inr st'"
      by (simp add: process_line_f)
  qed
  from a b c show ?thesis by blast
qed

theorem C2_quad_witness:
  "process_line read_integer (0, 0, 0) (init_loader\<lparr>tempNormals := [(0, 0, 1)]\<rparr>)
     ''f 1//1 2//1 3//1 4//1''
   = Inr (init_loader\<lparr>tempNormals := [(0, 0, 1)],
            mesh := empty_mesh\<lparr>indices := [0, 1, 2, 0, 2, 3],
                      normals := [0, 0, 1, 0, 0, 1, 0, 0, 1, 0, 0, 1, 0, 0, 1, 0, 0, 1]\<rparr>\<rparr>)
   \<and> indices (mesh (init_loader\<lparr>tempNormals := [(0, 0, 1)],
            mesh := empty_mesh\<lparr>indices := [0, 1, 2, 0, 2, 3],
                      normals := [0, 0, 1, 0, 0, 1, 0, 0, 1, 0, 0, 1, 0, 0, 1, 0, 0, 1]\<rparr>\<rparr>))
       = [] @ concat (map (\<lambda>i. [[0, 1, 2, 3 :: uint] ! 0, [0, 1, 2, 3] ! i, [0, 1, 2, 3] ! (i + 1)])
                       [1 ..< length [0, 1, 2, 3 :: uint] - 1])"
proof -
  let ?line = "''f 1//1 2//1 3//1 4//1''"
  let ?st = "init_loader\<lparr>tempNormals := [(0, 0, 1)]\<rparr>"
  have h1: "substr ?line 0 2 = ''f ''"
    by (simp add: substr_def)
  have h2: "read_corners (tokens (substr ?line 2 npos)) [] [] = Inr ([0, 1, 2, 3], [0, 0, 0, 0])"
    by (simp add: eval_defs)
  have h3: "3 \<le> length [0, 1, 2, 3 :: uint]"
    by simp
  have ok: "process_line read_integer (0, 0, 0) ?st ?line
      = Inr (init_loader\<lparr>tempNormals := [(0, 0, 1)],
            mesh := empty_mesh\<lparr>indices := [0, 1, 2, 0, 2, 3],
                      normals := [0, 0, 1, 0, 0, 1, 0, 0, 1, 0, 0, 1, 0, 0, 1, 0, 0, 1]\<rparr>\<rparr>)"
    by (simp add: eval_defs)
  from C2_fan_triangulation [OF h1 h2 h3, of read_integer "(0, 0, 0)" ?st] ok
  show ?thesis by (simp add: init_loader_def empty_mesh_def)
qed

section \<open>The camera\<close>

lemma update_camera_distance:
  "cameraDistance (update_camera ks dt c) =
     clamp (cameraDistance (apply_keys ks dt c)) minDistance maxDistance"
  by (simp add: update_camera_def Let_def)

lemma apply_keys_distance:
  "cameraDistance (apply_keys ks dt c) =
     (cameraDistance c - (if key_Q ks then zoomSpeed * dt else 0))
       + (if key_E ks then zoomSpeed * dt else 0)"
  by (simp add: apply_keys_def Let_def)

lemma clamp_range: "lo \<le> hi \<Longrightarrow> lo \<le> clamp x lo hi \<and> clamp x lo hi \<le> hi"
  by (simp add: clamp_def min_def max_def)

lemma distance_bounds_ordered: "minDistance \<le> maxDistance"
  by (simp add: minDistance_def maxDistance_def)

lemma run_frames_zoom_in:
  "key_Q ks \<Longrightarrow> \<not> key_E ks \<Longrightarrow> cameraDistance c = minDistance \<Longrightarrow> \<forall>dt \<in> set dts. 0 \<le> dt \<Longrightarrow>
     cameraDistance (run_frames ks dts c) = minDistance"
proof (induction dts arbitrary: c)
  case Nil
  then show ?case by simp
next
  case (Cons dt dts)
  from Cons.prems have "0 \<le> zoomSpeed * dt" by (simp add: zoomSpeed_def)
  with Cons.prems have "cameraDistance (update_camera ks dt c) = minDistance"
    using distance_bounds_ordered
    by (simp add: update_camera_distance apply_keys_distance clamp_def min_def max_def)
  from Cons.IH [OF Cons.prems(1,2) this] Cons.prems(4) show ?case by simp
qed

lemma run_frames_zoom_out:
  "key_E ks \<Longrightarrow> \<not> key_Q ks \<Longrightarrow> cameraDistance c = maxDistance \<Longrightarrow> \<forall>dt \<in> set dts. 0 \<le> dt \<Longrightarrow>
     cameraDistance (run_frames ks dts c) = maxDistance"
proof (induction dts arbitrary: c)
  case Nil
  then show ?case by simp
next
  case (Cons dt dts)
  from Cons.prems have "0 \<le> zoomSpeed * dt" by (simp add: zoomSpeed_def)
  with Cons.prems have "cameraDistance (update_camera ks dt c) = maxDistance"
    using distance_bounds_ordered
    by (simp add: update_camera_distance apply_keys_distance clamp_def min_def max_def)
  from Cons.IH [OF Cons.prems(1,2) this] Cons.prems(4) show ?case by simp
qed

lemma clamp_le_max: "lo \<le> hi \<Longrightarrow> clamp x lo hi \<le> max lo x"
  by (simp add: clamp_def min_def max_def)

lemma clamp_ge_min: "lo \<le> hi \<Longrightarrow> min hi x \<le> clamp x lo hi"
  by (simp add: clamp_def min_def max_def)

lemma update_camera_range:
  "minDistance \<le> cameraDistance (update_camera ks dt c)
   \<and> cameraDistance (update_camera ks dt c) \<le> maxDistance"
  unfolding update_camera_distance by (rule clamp_range [OF distance_bounds_ordered])

text \<open>After at least one frame the distance is in the interval, whatever the keys and times.\<close>

lemma run_frames_range:
  "dts \<noteq> [] \<Longrightarrow>
     minDistance \<le> cameraDistance (run_frames ks dts c)
     \<and> cameraDistance (run_frames ks dts c) \<le> maxDistance"
proof (induction dts arbitrary: c)
  case Nil
  then show ?case by simp
next
  case (Cons dt dts)
  show ?case
  proof (cases "dts = []")
    case True
    with update_camera_range [of ks dt c] show ?thesis by simp
  next
    case False
    from Cons.IH [OF False, of "update_camera ks dt c"] show ?thesis by simp
  qed
qed

text \<open>
  Zooming in over frames with elapsed times \<open>\<ge> 0\<close>: the distance is at most what the
  unclamped subtraction of the whole zoom would give, or \<open>minDistance\<close>.
\<close>

lemma run_frames_zoom_in_le:
  "key_Q ks \<Longrightarrow> \<not> key_E ks \<Longrightarrow> \<forall>dt \<in> set dts. 0 \<le> dt \<Longrightarrow>
     cameraDistance (run_frames ks dts c)
       \<le> max minDistance (cameraDistance c - zoomSpeed * sum_list dts)"
proof (induction dts arbitrary: c)
  case Nil
  then show ?case by simp
next
  case (Cons dt dts)
  let ?c1 = "update_camera ks dt c"
  from Cons.prems have nn: "\<forall>t \<in> set dts. 0 \<le> t" by simp
  then have s0: "0 \<le> sum_list dts" by (simp add: sum_list_nonneg)
  have z: "0 \<le> zoomSpeed" by (simp add: zoomSpeed_def)
  from s0 z have zs: "0 \<le> zoomSpeed * sum_list dts" by simp
  from Cons.prems(1,2) have d1: "cameraDistance ?c1 \<le> max minDistance (cameraDistance c - zoomSpeed * dt)"
    using clamp_le_max [OF distance_bounds_ordered, of "cameraDistance c - zoomSpeed * dt"]
    by (simp add: update_camera_distance apply_keys_distance)
  from Cons.IH [OF Cons.prems(1,2) nn, of ?c1]
  have "cameraDistance (run_frames ks dts ?c1)
      \<le> max minDistance (cameraDistance ?c1 - zoomSpeed * sum_list dts)" .
  also from d1 zs have "\<dots> \<le> max minDistance (cameraDistance c - zoomSpeed * dt - zoomSpeed * sum_list dts)"
    by (simp add: max_def split: if_splits)
  also have "cameraDistance c - zoomSpeed * dt - zoomSpeed * sum_list dts
      = cameraDistance c - zoomSpeed * sum_list (dt # dts)"
    by (simp add: algebra_simps)
  finally show ?case by simp
qed

lemma run_frames_zoom_out_ge:
  "key_E ks \<Longrightarrow> \<not> key_Q ks \<Longrightarrow> \<forall>dt \<in> set dts. 0 \<le> dt \<Longrightarrow>
     min maxDistance (cameraDistance c + zoomSpeed * sum_list dts)
       \<le> cameraDistance (run_frames ks dts c)"
proof (induction dts arbitrary: c)
  case Nil
  then show ?case by simp
next
  case (Cons dt dts)
  let ?c1 = "update_camera ks dt c"
  from Cons.prems have nn: "\<forall>t \<in> set dts. 0 \<le> t" by simp
  then have s0: "0 \<le> sum_list dts" by (simp add: sum_list_nonneg)
  have z: "0 \<le> zoomSpeed" by (simp add: zoomSpeed_def)
  from s0 z have zs: "0 \<le> zoomSpeed * sum_list dts" by simp
  from Cons.prems(1,2) have d1: "min maxDistance (cameraDistance c + zoomSpeed * dt) \<le> cameraDistance ?c1"
    using clamp_ge_min [OF distance_bounds_ordered, of "cameraDistance c + zoomSpeed * dt"]
    by (simp add: update_camera_distance apply_keys_distance)
  have "cameraDistance c + zoomSpeed * sum_list (dt # dts)
      = cameraDistance c + zoomSpeed * dt + zoomSpeed * sum_list dts"
    by (simp add: algebra_simps)
  then have "min maxDistance (cameraDistance c + zoomSpeed * sum_list (dt # dts))
      = min maxDistance (cameraDistance c + zoomSpeed * dt + zoomSpeed * sum_list dts)"
    by simp
  also from d1 zs have "\<dots> \<le> min maxDistance (cameraDistance ?c1 + zoomSpeed * sum_list dts)"
    by (simp add: min_def split: if_splits)
  also from Cons.IH [OF Cons.prems(1,2) nn, of ?c1]
  have "\<dots> \<le> cameraDistance (run_frames ks dts ?c1)" .
  finally show ?case by simp
qed

text \<open>
  Claim C8. After every camera update the distance lies in \<open>[minDistance, maxDistance]\<close>,
  which is \<open>[1.5, 40]\<close>, and so it does after any run of one or more frames. The update
  is total: a distance that the zoom keys drive below \<open>minDistance\<close> becomes
  \<open>minDistance\<close>, one driven above \<open>maxDistance\<close> becomes \<open>maxDistance\<close>, one inside the
  interval is kept. Zooming in over frames with elapsed times \<open>\<ge> 0\<close>, from any distance,
  ends at \<open>minDistance\<close> as soon as the zoom adds up to the way down to \<open>minDistance\<close>, and
  stays there however long it goes on; zooming out likewise ends and stays at
  \<open>maxDistance\<close>.
\<close>

theorem C8_distance_clamped:
  "minDistance = 1.5 \<and> maxDistance = 40
    \<and> minDistance \<le> cameraDistance (update_camera ks dt c)
    \<and> cameraDistance (update_camera ks dt c) \<le> maxDistance
    \<and> (cameraDistance (apply_keys ks dt c) < minDistance
          \<longrightarrow> cameraDistance (update_camera ks dt c) = minDistance)
    \<and> (maxDistance < cameraDistance (apply_keys ks dt c)
          \<longrightarrow> cameraDistance (update_camera ks dt c) = maxDistance)
    \<and> (minDistance \<le> cameraDistance (apply_keys ks dt c)
          \<and> cameraDistance (apply_keys ks dt c) \<le> maxDistance
          \<longrightarrow> cameraDistance (update_camera ks dt c) = cameraDistance (apply_keys ks dt c))
    \<and> (key_Q ks \<and> \<not> key_E ks \<and> cameraDistance c = minDistance \<and> (\<forall>t \<in> set dts. 0 \<le> t)
          \<longrightarrow> cameraDistance (run_frames ks dts c) = minDistance)
    \<and> (key_E ks \<and> \<not> key_Q ks \<and> cameraDistance c = maxDistance \<and> (\<forall>t \<in> set dts. 0 \<le> t)
          \<longrightarrow> cameraDistance (run_frames ks dts c) = maxDistance)
    \<and> (dts \<noteq> [] \<longrightarrow> minDistance \<le> cameraDistance (run_frames ks dts c)
          \<and> cameraDistance (run_frames ks dts c) \<le> maxDistance)
    \<and> (key_Q ks \<and> \<not> key_E ks \<and> dts \<noteq> [] \<and> (\<forall>t \<in> set dts. 0 \<le> t)
          \<and> cameraDistance c - zoomSpeed * sum_list dts \<le> minDistance
          \<longrightarrow> cameraDistance (run_frames ks dts c) = minDistance)
    \<and> (key_E ks \<and> \<not> key_Q ks \<and> dts \<noteq> [] \<and> (\<forall>t \<in> set dts. 0 \<le> t)
          \<and> maxDistance \<le> cameraDistance c + zoomSpeed * sum_list dts
          \<longrightarrow> cameraDistance (run_frames ks dts c) = maxDistance)
    \<and> run_frames ks (dt # dts) c = run_frames ks dts (update_camera ks dt c)
    \<and> run_frames ks [] c = c"
proof -
  let ?d = "cameraDistance (apply_keys ks dt c)"
  note eq = update_camera_distance [of ks dt c]
  have a: "minDistance = 1.5 \<and> maxDistance = 40"
    by (simp add: minDistance_def maxDistance_def)
  have b: "minDistance \<le> cameraDistance (update_camera ks dt c)
      \<and> cameraDistance (update_camera ks dt c) \<le> maxDistance"
    unfolding eq by (rule clamp_range [OF distance_bounds_ordered])
  have c1: "?d < minDistance \<longrightarrow> cameraDistance (update_camera ks dt c) = minDistance"
    unfolding eq using distance_bounds_ordered by (simp add: clamp_def min_def max_def)
  have c2: "maxDistance < ?d \<longrightarrow> cameraDistance (update_camera ks dt c) = maxDistance"
    unfolding eq using distance_bounds_ordered by (simp add: clamp_def min_def max_def)
  have c3: "minDistance \<le> ?d \<and> ?d \<le> maxDistance \<longrightarrow> cameraDistance (update_camera ks dt c) = ?d"
    unfolding eq by (simp add: clamp_def min_def max_def)
  have e1: "key_Q ks \<and> \<not> key_E ks \<and> cameraDistance c = minDistance \<and> (\<forall>t \<in> set dts. 0 \<le> t)
          \<longrightarrow> cameraDistance (run_frames ks dts c) = minDistance"
    using run_frames_zoom_in [of ks c dts] by blast
  have e2: "key_E ks \<and> \<not> key_Q ks \<and> cameraDistance c = maxDistance \<and> (\<forall>t \<in> set dts. 0 \<le> t)
          \<longrightarrow> cameraDistance (run_frames ks dts c) = maxDistance"
    using run_frames_zoom_out [of ks c dts] by blast
  have f: "dts \<noteq> [] \<longrightarrow> minDistance \<le> cameraDistance (run_frames ks dts c)
          \<and> cameraDistance (run_frames ks dts c) \<le> maxDistance"
    using run_frames_range [of dts ks c] by blast
  have g: "key_Q ks \<and> \<not> key_E ks \<and> dts \<noteq> [] \<and> (\<forall>t \<in> set dts. 0 \<le> t)
          \<and> cameraDistance c - zoomSpeed * sum_list dts \<le> minDistance
          \<longrightarrow> cameraDistance (run_frames ks dts c) = minDistance"
  proof
    assume h: "key_Q ks \<and> \<not> key_E ks \<and> dts \<noteq> [] \<and> (\<forall>t \<in> set dts. 0 \<le> t)
          \<and> cameraDistance c - zoomSpeed * sum_list dts \<le> minDistance"
    then have "cameraDistance (run_frames ks dts c)
        \<le> max minDistance (cameraDistance c - zoomSpeed * sum_list dts)"
      using run_frames_zoom_in_le [of ks dts c] by blast
    with h have "cameraDistance (run_frames ks dts c) \<le> minDistance" by simp
    moreover from h f have "minDistance \<le> cameraDistance (run_frames ks dts c)" by blast
    ultimately show "cameraDistance (run_frames ks dts c) = minDistance" by simp
  qed
  have h: "key_E ks \<and> \<not> key_Q ks \<and> dts \<noteq> [] \<and> (\<forall>t \<in> set dts. 0 \<le> t)
          \<and> maxDistance \<le> cameraDistance c + zoomSpeed * sum_list dts
          \<longrightarrow> cameraDistance (run_frames ks dts c) = maxDistance"
  proof
    assume h: "key_E ks \<and> \<not> key_Q ks \<and> dts \<noteq> [] \<and> (\<forall>t \<in> set dts. 0 \<le> t)
          \<and> maxDistance \<le> cameraDistance c + zoomSpeed * sum_list dts"
    then have "min maxDistance (cameraDistance c + zoomSpeed * sum_list dts)
        \<le> cameraDistance (run_frames ks dts c)"
      using run_frames_zoom_out_ge [of ks dts c] by blast
    with h have "maxDistance \<le> cameraDistance (run_frames ks dts c)" by simp
    moreover from h f have "cameraDistance (run_frames ks dts c) \<le> maxDistance" by blast
    ultimately show "cameraDistance (run_frames ks dts c) = maxDistance" by simp
  qed
  have i: "run_frames ks (dt # dts) c = run_frames ks dts (update_camera ks dt c)
      \<and> run_frames ks [] c = c"
    by simp
  from a b c1 c2 c3 e1 e2 f g h i show ?thesis by blast
qed

theorem C8_zoom_witness:
  "cameraDistance (apply_keys \<lparr>key_A = False, key_D = False, key_W = False, key_S = False,
        key_Q = True, key_E = False\<rparr> 1 \<lparr>angleY = 0, angleZ = 0, cameraDistance = 5.196\<rparr>) < minDistance
   \<and> cameraDistance (update_camera \<lparr>key_A = False, key_D = False, key_W = False, key_S = False,
        key_Q = True, key_E = False\<rparr> 1 \<lparr>angleY = 0, angleZ = 0, cameraDistance = 5.196\<rparr>) = 1.5
   \<and> cameraDistance (run_frames \<lparr>key_A = False, key_D = False, key_W = False, key_S = False,
        key_Q = True, key_E = False\<rparr> [1, 0.5, 2] \<lparr>angleY = 0, angleZ = 0, cameraDistance = minDistance\<rparr>)
       = minDistance
   \<and> maxDistance < cameraDistance (apply_keys \<lparr>key_A = False, key_D = False, key_W = False,
        key_S = False, key_Q = False, key_E = True\<rparr> 4 \<lparr>angleY = 0, angleZ = 0, cameraDistance = 5.196\<rparr>)
   \<and> cameraDistance (update_camera \<lparr>key_A = False, key_D = False, key_W = False, key_S = False,
        key_Q = False, key_E = True\<rparr> 4 \<lparr>angleY = 0, angleZ = 0, cameraDistance = 5.196\<rparr>) = 40
   \<and> cameraDistance (run_frames \<lparr>key_A = False, key_D = False, key_W = False, key_S = False,
        key_Q = False, key_E = True\<rparr> [1, 0.5, 2] \<lparr>angleY = 0, angleZ = 0, cameraDistance = maxDistance\<rparr>)
       = maxDistance
   \<and> cameraDistance (update_camera \<lparr>key_A = True, key_D = False, key_W = False, key_S = False,
        key_Q = False, key_E = True\<rparr> 0.25 \<lparr>angleY = 0, angleZ = 0, cameraDistance = 5.196\<rparr>) = 7.696
   \<and> 5.196 - zoomSpeed * sum_list [0.1, 0.2, 0.3] \<le> minDistance
   \<and> cameraDistance (run_frames \<lparr>key_A = False, key_D = False, key_W = False, key_S = False,
        key_Q = True, key_E = False\<rparr> [0.1, 0.2, 0.3] \<lparr>angleY = 0, angleZ = 0, cameraDistance = 5.196\<rparr>)
       = 1.5
   \<and> maxDistance \<le> 5.196 + zoomSpeed * sum_list [1, 1, 2]
   \<and> cameraDistance (run_frames \<lparr>key_A = False, key_D = False, key_W = False, key_S = False,
        key_Q = False, key_E = True\<rparr> [1, 1, 2] \<lparr>angleY = 0, angleZ = 0, cameraDistance = 5.196\<rparr>)
       = 40
   \<and> minDistance \<le> cameraDistance (run_frames \<lparr>key_A = True, key_D = False, key_W = False,
        key_S = False, key_Q = True, key_E = False\<rparr> [0.1, -7] \<lparr>angleY = 0, angleZ = 0, cameraDistance = 100\<rparr>)
   \<and> cameraDistance (run_frames \<lparr>key_A = True, key_D = False, key_W = False,
        key_S = False, key_Q = True, key_E = False\<rparr> [0.1, -7] \<lparr>angleY = 0, angleZ = 0, cameraDistance = 100\<rparr>)
       \<le> maxDistance"
proof -
  let ?zin = "\<lparr>key_A = False, key_D = False, key_W = False, key_S = False, key_Q = True, key_E = False\<rparr>"
  let ?zout = "\<lparr>key_A = False, key_D = False, key_W = False, key_S = False, key_Q = False, key_E = True\<rparr>"
  let ?both = "\<lparr>key_A = True, key_D = False, key_W = False, key_S = False, key_Q = False, key_E = True\<rparr>"
  let ?aq = "\<lparr>key_A = True, key_D = False, key_W = False, key_S = False, key_Q = True, key_E = False\<rparr>"
  let ?c = "\<lparr>angleY = 0, angleZ = 0, cameraDistance = 5.196\<rparr>"
  have d1: "cameraDistance (apply_keys ?zin 1 ?c) < minDistance"
    by (simp add: apply_keys_def zoomSpeed_def minDistance_def)
  have d2: "maxDistance < cameraDistance (apply_keys ?zout 4 ?c)"
    by (simp add: apply_keys_def zoomSpeed_def maxDistance_def)
  have d3: "cameraDistance (apply_keys ?both 0.25 ?c) = 7.696"
    by (simp add: apply_keys_def zoomSpeed_def)
  have d4: "\<forall>t \<in> set [1, 0.5, 2 :: cfloat]. 0 \<le> t"
    by simp
  have d6: "5.196 - zoomSpeed * sum_list [0.1, 0.2, 0.3] \<le> minDistance"
    by (simp add: zoomSpeed_def minDistance_def)
  have d7: "maxDistance \<le> 5.196 + zoomSpeed * sum_list [1, 1, 2]"
    by (simp add: zoomSpeed_def maxDistance_def)
  have d8: "\<forall>t \<in> set [0.1, 0.2, 0.3 :: cfloat]. 0 \<le> t"
    by simp
  have d9: "\<forall>t \<in> set [1, 1, 2 :: cfloat]. 0 \<le> t"
    by simp
  from C8_distance_clamped [of ?zin 1 ?c "[1, 0.5, 2]"] d1
  have r1: "cameraDistance (update_camera ?zin 1 ?c) = 1.5" by simp
  from C8_distance_clamped [of ?zin 1 "\<lparr>angleY = 0, angleZ = 0, cameraDistance = minDistance\<rparr>" "[1, 0.5, 2]"]
  have r2: "cameraDistance (run_frames ?zin [1, 0.5, 2] \<lparr>angleY = 0, angleZ = 0, cameraDistance = minDistance\<rparr>)
       = minDistance" by simp
  from C8_distance_clamped [of ?zout 4 ?c "[1, 0.5, 2]"] d2
  have r3: "cameraDistance (update_camera ?zout 4 ?c) = 40" by simp
  from C8_distance_clamped [of ?zout 4 "\<lparr>angleY = 0, angleZ = 0, cameraDistance = maxDistance\<rparr>" "[1, 0.5, 2]"]
  have r4: "cameraDistance (run_frames ?zout [1, 0.5, 2] \<lparr>angleY = 0, angleZ = 0, cameraDistance = maxDistance\<rparr>)
       = maxDistance" by simp
  from C8_distance_clamped [of ?both "0.25" ?c "[]"] d3
  have r5: "cameraDistance (update_camera ?both 0.25 ?c) = 7.696"
    by (simp add: minDistance_def maxDistance_def)
  have m: "minDistance = 1.5 \<and> maxDistance = 40"
    by (simp add: minDistance_def maxDistance_def)
  from C8_distance_clamped [of ?zin 1 ?c "[0.1, 0.2, 0.3]"] d6 d8
  have "cameraDistance (run_frames ?zin [0.1, 0.2, 0.3] ?c) = minDistance"
    by (simp del: run_frames.simps)
  with m have r6: "cameraDistance (run_frames ?zin [0.1, 0.2, 0.3] ?c) = 1.5" by simp
  from C8_distance_clamped [of ?zout 1 ?c "[1, 1, 2]"] d7 d9
  have "cameraDistance (run_frames ?zout [1, 1, 2] ?c) = maxDistance"
    by (simp del: run_frames.simps)
  with m have r7: "cameraDistance (run_frames ?zout [1, 1, 2] ?c) = 40" by simp
  from C8_distance_clamped [of ?aq 1 "\<lparr>angleY = 0, angleZ = 0, cameraDistance = 100\<rparr>" "[0.1, -7]"]
  have r8: "minDistance \<le> cameraDistance (run_frames ?aq [0.1, -7] \<lparr>angleY = 0, angleZ = 0, cameraDistance = 100\<rparr>)
      \<and> cameraDistance (run_frames ?aq [0.1, -7] \<lparr>angleY = 0, angleZ = 0, cameraDistance = 100\<rparr>) \<le> maxDistance"
    by (simp del: run_frames.simps)
  from d1 r1 r2 d2 r3 r4 r5 d6 r6 d7 r7 r8 show ?thesis by blast
qed

text \<open>
  Claim C9. With the distance already in \<open>[minDistance, maxDistance]\<close>, an update with
  elapsed time 0 leaves both angles and the distance as they were, whichever keys are held.
\<close>

theorem C9_zero_delta_keeps_camera:
  assumes "minDistance \<le> cameraDistance c" and "cameraDistance c \<le> maxDistance"
  shows "update_camera ks 0 c = c"
  using assms by (simp add: update_camera_def apply_keys_def clamp_def min_def max_def)

theorem C9_zero_delta_witness:
  "minDistance \<le> cameraDistance \<lparr>angleY = 0.3, angleZ = -1, cameraDistance = 5.196\<rparr>
   \<and> cameraDistance \<lparr>angleY = 0.3, angleZ = -1, cameraDistance = 5.196\<rparr> \<le> maxDistance
   \<and> update_camera \<lparr>key_A = True, key_D = True, key_W = True, key_S = False, key_Q = True, key_E = False\<rparr>
        0 \<lparr>angleY = 0.3, angleZ = -1, cameraDistance = 5.196\<rparr>
      = \<lparr>angleY = 0.3, angleZ = -1, cameraDistance = 5.196\<rparr>"
proof -
  let ?c = "\<lparr>angleY = 0.3, angleZ = -1, cameraDistance = 5.196\<rparr>"
  have h1: "minDistance \<le> cameraDistance ?c" by (simp add: minDistance_def)
  have h2: "cameraDistance ?c \<le> maxDistance" by (simp add: maxDistance_def)
  from h1 h2 C9_zero_delta_keeps_camera [OF h1 h2] show ?thesis by simp
qed

section \<open>The mesh that \<open>loadOBJ\<close> returns\<close>

lemma loadOBJ_Inr:
  assumes "loadOBJ rd vinit src = Inr m"
  shows "\<exists>st. load_lines rd vinit init_loader (getlines src) = Inr st
           \<and> m = (mesh st)\<lparr>vertices := concat (map flat (tempVertices st))\<rparr>
           \<and> draw_inv st
           \<and> tempVertices st = map (\<lambda>l. read_vec3 rd vinit (substr l 2 npos))
                 (filter (\<lambda>l. substr l 0 2 = ''v '') (getlines src))
           \<and> tempNormals st = map (\<lambda>l. read_vec3 rd vinit (substr l 3 npos))
                 (filter (\<lambda>l. substr l 0 3 = ''vn '') (getlines src))"
proof -
  from assms obtain st where ld: "load_lines rd vinit init_loader (getlines src) = Inr st"
    and m: "m = add_vertices (tempVertices st) (mesh st)"
    by (auto simp: loadOBJ_def split: sum.splits)
  note s = load_lines_staging [OF ld]
  from s have v0: "vertices (mesh st) = []"
    by (simp add: init_loader_def empty_mesh_def)
  from m v0 have m': "m = (mesh st)\<lparr>vertices := concat (map flat (tempVertices st))\<rparr>"
    by (simp add: add_vertices_eq)
  from load_lines_inv [OF draw_inv_init ld] have inv: "draw_inv st" .
  from s have tv: "tempVertices st = map (\<lambda>l. read_vec3 rd vinit (substr l 2 npos))
                 (filter (\<lambda>l. substr l 0 2 = ''v '') (getlines src))"
    and tn: "tempNormals st = map (\<lambda>l. read_vec3 rd vinit (substr l 3 npos))
                 (filter (\<lambda>l. substr l 0 3 = ''vn '') (getlines src))"
    by (simp_all add: init_loader_def)
  from ld m' inv tv tn show ?thesis by blast
qed

text \<open>
  Claim C3. In every mesh that the loader returns the number of indices is a multiple of
  3, and \<open>normals\<close> holds one normal, that is three floats, for each index.
\<close>

theorem C3_one_normal_per_draw_slot:
  assumes "loadOBJ rd vinit src = Inr m"
  shows "length (indices m) mod 3 = 0 \<and> length (normals m) = 3 * length (indices m)"
proof -
  from loadOBJ_Inr [OF assms] obtain st where
    m: "m = (mesh st)\<lparr>vertices := concat (map flat (tempVertices st))\<rparr>" and inv: "draw_inv st"
    by blast
  from inv m show ?thesis by (simp add: draw_inv_def)
qed

theorem C3_triangle_witness:
  "loadOBJ read_integer (0, 0, 0)
     (text_of [''v 0 0 0'', ''v 1 0 0'', ''v 0 1 0'', ''vn 0 0 1'', ''f 1//1 2//1 3//1''])
   = Inr \<lparr>vertices = [0, 0, 0, 1, 0, 0, 0, 1, 0], normals = [0, 0, 1, 0, 0, 1, 0, 0, 1],
          indices = [0, 1, 2], edgeIndices = []\<rparr>
   \<and> length (indices \<lparr>vertices = [0, 0, 0, 1, 0, 0, 0, 1, 0], normals = [0, 0, 1, 0, 0, 1, 0, 0, 1],
          indices = [0, 1, 2 :: uint], edgeIndices = []\<rparr>) mod 3 = 0
   \<and> length (normals \<lparr>vertices = [0, 0, 0, 1, 0, 0, 0, 1, 0], normals = [0, 0, 1, 0, 0, 1, 0, 0, 1 :: cfloat],
          indices = [0, 1, 2 :: uint], edgeIndices = []\<rparr>) = 3 * 3"
proof -
  have ld: "loadOBJ read_integer (0, 0, 0)
     (text_of [''v 0 0 0'', ''v 1 0 0'', ''v 0 1 0'', ''vn 0 0 1'', ''f 1//1 2//1 3//1''])
   = Inr \<lparr>vertices = [0, 0, 0, 1, 0, 0, 0, 1, 0], normals = [0, 0, 1, 0, 0, 1, 0, 0, 1],
          indices = [0, 1, 2], edgeIndices = []\<rparr>"
    by (simp add: eval_defs)
  from C3_one_normal_per_draw_slot [OF ld] ld show ?thesis by simp
qed

text \<open>
  Claim C7. In every mesh that the loader returns, \<open>vertices\<close> is the sequence of the
  positions read from the \<open>v\<close> lines, in the order of these lines and whatever lines lie
  between them, each position flattened as x, y, z: the floats at \<open>3k\<close>, \<open>3k + 1\<close>,
  \<open>3k + 2\<close> are the position of the \<open>k\<close>-th \<open>v\<close> line, counted from 0. \<open>normals\<close> is a
  sequence of normals of \<open>vn\<close> lines, each flattened as x, y, z.
\<close>

theorem C7_order_preserving:
  assumes "loadOBJ rd vinit src = Inr m"
  shows "vertices m = concat (map (\<lambda>l. flat (read_vec3 rd vinit (substr l 2 npos)))
                        (filter (\<lambda>l. substr l 0 2 = ''v '') (getlines src)))
    \<and> (\<forall>k < length (filter (\<lambda>l. substr l 0 2 = ''v '') (getlines src)).
          (vertices m ! (3 * k), vertices m ! (3 * k + 1), vertices m ! (3 * k + 2))
            = read_vec3 rd vinit (substr (filter (\<lambda>l. substr l 0 2 = ''v '') (getlines src) ! k) 2 npos))
    \<and> (\<exists>ns. normals m = concat (map flat ns)
           \<and> set ns \<subseteq> set (map (\<lambda>l. read_vec3 rd vinit (substr l 3 npos))
                            (filter (\<lambda>l. substr l 0 3 = ''vn '') (getlines src))))
    \<and> (\<forall>x y z. flat (x, y, z) = [x, y, z])"
proof -
  let ?vl = "filter (\<lambda>l. substr l 0 2 = ''v '') (getlines src)"
  from loadOBJ_Inr [OF assms] obtain st where
    m: "m = (mesh st)\<lparr>vertices := concat (map flat (tempVertices st))\<rparr>" and inv: "draw_inv st"
    and tv: "tempVertices st = map (\<lambda>l. read_vec3 rd vinit (substr l 2 npos)) ?vl"
    and tn: "tempNormals st = map (\<lambda>l. read_vec3 rd vinit (substr l 3 npos))
                 (filter (\<lambda>l. substr l 0 3 = ''vn '') (getlines src))"
    by blast
  from m have vm: "vertices m = concat (map flat (tempVertices st))" by simp
  have a: "vertices m = concat (map (\<lambda>l. flat (read_vec3 rd vinit (substr l 2 npos))) ?vl)"
    unfolding vm tv by (simp add: comp_def)
  have b: "\<forall>k < length ?vl.
          (vertices m ! (3 * k), vertices m ! (3 * k + 1), vertices m ! (3 * k + 2))
            = read_vec3 rd vinit (substr (?vl ! k) 2 npos)"
  proof (intro allI impI)
    fix k
    assume k: "k < length ?vl"
    then have "k < length (tempVertices st)" by (simp add: tv)
    from concat_flat_nth [OF this] k show
      "(vertices m ! (3 * k), vertices m ! (3 * k + 1), vertices m ! (3 * k + 2))
            = read_vec3 rd vinit (substr (?vl ! k) 2 npos)"
      unfolding vm by (simp add: tv)
  qed
  from inv m have c: "\<exists>ns. normals m = concat (map flat ns)
           \<and> set ns \<subseteq> set (map (\<lambda>l. read_vec3 rd vinit (substr l 3 npos))
                            (filter (\<lambda>l. substr l 0 3 = ''vn '') (getlines src)))"
    unfolding tn [symmetric] by (simp add: draw_inv_def)
  have d: "\<forall>x y z. flat (x, y, z) = [x, y, z]"
    by (simp add: flat_def)
  from a b c d show ?thesis by blast
qed

theorem C7_interleaved_witness:
  "loadOBJ read_integer (0, 0, 0)
     (text_of [''v 1 2 3'', ''vn 0 0 1'', ''v 4 5 6'', ''f 1//1 2//1 3//1'', ''# note'', ''v 7 8 9''])
   = Inr \<lparr>vertices = [1, 2, 3, 4, 5, 6, 7, 8, 9], normals = [0, 0, 1, 0, 0, 1, 0, 0, 1],
          indices = [0, 1, 2], edgeIndices = []\<rparr>
   \<and> filter (\<lambda>l. substr l 0 2 = ''v '') (getlines
       (text_of [''v 1 2 3'', ''vn 0 0 1'', ''v 4 5 6'', ''f 1//1 2//1 3//1'', ''# note'', ''v 7 8 9'']))
     = [''v 1 2 3'', ''v 4 5 6'', ''v 7 8 9'']
   \<and> (2 :: nat) < length [''v 1 2 3'', ''v 4 5 6'', ''v 7 8 9'']
   \<and> ([1, 2, 3, 4, 5, 6, 7, 8, 9 :: cfloat] ! (3 * 2), [1, 2, 3, 4, 5, 6, 7, 8, 9 :: cfloat] ! (3 * 2 + 1),
        [1, 2, 3, 4, 5, 6, 7, 8, 9 :: cfloat] ! (3 * 2 + 2))
      = read_vec3 read_integer (0, 0, 0) (substr ''v 7 8 9'' 2 npos)"
proof -
  let ?src = "text_of [''v 1 2 3'', ''vn 0 0 1'', ''v 4 5 6'', ''f 1//1 2//1 3//1'', ''# note'', ''v 7 8 9'']"
  have ld: "loadOBJ read_integer (0, 0, 0) ?src
   = Inr \<lparr>vertices = [1, 2, 3, 4, 5, 6, 7, 8, 9], normals = [0, 0, 1, 0, 0, 1, 0, 0, 1],
          indices = [0, 1, 2], edgeIndices = []\<rparr>"
    by (simp add: eval_defs)
  have vl: "filter (\<lambda>l. substr l 0 2 = ''v '') (getlines ?src) = [''v 1 2 3'', ''v 4 5 6'', ''v 7 8 9'']"
    by (simp add: text_of_def getlines_def substr_def)
  have k: "(2 :: nat) < length [''v 1 2 3'', ''v 4 5 6'', ''v 7 8 9'']"
    by simp
  from C7_order_preserving [OF ld] have
    "\<forall>k < length (filter (\<lambda>l. substr l 0 2 = ''v '') (getlines ?src)).
          (vertices \<lparr>vertices = [1, 2, 3, 4, 5, 6, 7, 8, 9 :: cfloat], normals = [0, 0, 1, 0, 0, 1, 0, 0, 1 :: cfloat],
              indices = [0, 1, 2 :: uint], edgeIndices = []\<rparr> ! (3 * k),
           vertices \<lparr>vertices = [1, 2, 3, 4, 5, 6, 7, 8, 9 :: cfloat], normals = [0, 0, 1, 0, 0, 1, 0, 0, 1 :: cfloat],
              indices = [0, 1, 2 :: uint], edgeIndices = []\<rparr> ! (3 * k + 1),
           vertices \<lparr>vertices = [1, 2, 3, 4, 5, 6, 7, 8, 9 :: cfloat], normals = [0, 0, 1, 0, 0, 1, 0, 0, 1 :: cfloat],
              indices = [0, 1, 2 :: uint], edgeIndices = []\<rparr> ! (3 * k + 2))
            = read_vec3 read_integer (0, 0, 0)
                (substr (filter (\<lambda>l. substr l 0 2 = ''v '') (getlines ?src) ! k) 2 npos)"
    by blast
  from this [rule_format, of 2] k
  have "([1, 2, 3, 4, 5, 6, 7, 8, 9 :: cfloat] ! (3 * 2), [1, 2, 3, 4, 5, 6, 7, 8, 9 :: cfloat] ! (3 * 2 + 1),
        [1, 2, 3, 4, 5, 6, 7, 8, 9 :: cfloat] ! (3 * 2 + 2))
      = read_vec3 read_integer (0, 0, 0) (substr ''v 7 8 9'' 2 npos)"
    by (simp add: vl)
  with ld vl k show ?thesis by blast
qed

section \<open>Faces the loader does not check\<close>

lemma process_line_no_corner:
  assumes "substr line 0 2 = ''f ''" and "tokens (substr line 2 npos) = []"
  shows "process_line rd vinit st line = Inl Bad_faceVerts"
proof -
  have "triangulate [] [] (tempNormals st) (loop_bound 0) 1 (mesh st) = Inl Bad_faceVerts"
    by (subst triangulate.simps) (simp add: loop_bound_def vec_at_def)
  with assms show ?thesis by (simp add: process_line_f)
qed

text \<open>
  Claim C10. On a face line with at least one corner token, no read of \<open>faceVerts\<close> or
  \<open>faceNormals\<close> in the triangulation loop is outside the vector. A face line without
  corner token is not covered: there \<open>faceVerts.size() - 1\<close> wraps around and the first
  read, \<open>faceVerts[0]\<close>, is outside.
\<close>

theorem C10_corner_accesses_in_bounds:
  assumes "substr line 0 2 = ''f ''"
  shows "(tokens (substr line 2 npos) \<noteq> [] \<longrightarrow>
            process_line rd vinit st line \<noteq> Inl Bad_faceVerts
          \<and> process_line rd vinit st line \<noteq> Inl Bad_faceNormals)
       \<and> (tokens (substr line 2 npos) = [] \<longrightarrow> process_line rd vinit st line = Inl Bad_faceVerts)"
proof -
  have a: "tokens (substr line 2 npos) \<noteq> [] \<longrightarrow>
            process_line rd vinit st line \<noteq> Inl Bad_faceVerts
          \<and> process_line rd vinit st line \<noteq> Inl Bad_faceNormals"
  proof
    assume ne: "tokens (substr line 2 npos) \<noteq> []"
    show "process_line rd vinit st line \<noteq> Inl Bad_faceVerts
          \<and> process_line rd vinit st line \<noteq> Inl Bad_faceNormals"
    proof (cases "read_corners (tokens (substr line 2 npos)) [] []")
      case (Inl e)
      with assms have "process_line rd vinit st line = Inl e"
        by (simp add: process_line_f)
      with read_corners_error [OF Inl] show ?thesis by auto
    next
      case (Inr p)
      obtain fv fn where p: "p = (fv, fn)" by (cases p)
      from read_corners_length [OF Inr [unfolded p]] ne
      have len: "length fn = length fv" and fv: "fv \<noteq> []" by auto
      from fv have lb: "loop_bound (length fv) = length fv - 1"
        by (simp add: loop_bound_def)
      from triangulate_face_accesses [OF fv len lb, of 1 "tempNormals st" "mesh st"]
      have "triangulate fv fn (tempNormals st) (loop_bound (length fv)) 1 (mesh st) \<noteq> Inl Bad_faceVerts
          \<and> triangulate fv fn (tempNormals st) (loop_bound (length fv)) 1 (mesh st) \<noteq> Inl Bad_faceNormals"
        by simp
      with assms Inr p show ?thesis
        by (auto simp: process_line_f split: sum.splits)
    qed
  qed
  from process_line_no_corner [OF assms]
  have b: "tokens (substr line 2 npos) = [] \<longrightarrow> process_line rd vinit st line = Inl Bad_faceVerts"
    by blast
  from a b show ?thesis by blast
qed

theorem C10_witness:
  "tokens (substr ''f 1//1 2//1 3//1'' 2 npos) \<noteq> []
   \<and> process_line read_integer (0, 0, 0) init_loader ''f 1//1 2//1 3//1'' \<noteq> Inl Bad_faceVerts
   \<and> process_line read_integer (0, 0, 0) init_loader ''f 1//1 2//1 3//1'' \<noteq> Inl Bad_faceNormals
   \<and> process_line read_integer (0, 0, 0) init_loader ''f 1//1 2//1 3//1'' = Inl Bad_tempNormals
   \<and> tokens (substr ''f '' 2 npos) = []
   \<and> process_line read_integer (0, 0, 0) init_loader ''f '' = Inl Bad_faceVerts"
proof -
  have h1: "substr ''f 1//1 2//1 3//1'' 0 2 = ''f ''" by (simp add: substr_def)
  have h2: "tokens (substr ''f 1//1 2//1 3//1'' 2 npos) \<noteq> []" by (simp add: eval_defs)
  have h3: "substr ''f '' 0 2 = ''f ''" by (simp add: substr_def)
  have h4: "tokens (substr ''f '' 2 npos) = []" by (simp add: eval_defs)
  have ev: "process_line read_integer (0, 0, 0) init_loader ''f 1//1 2//1 3//1'' = Inl Bad_tempNormals"
    by (simp add: eval_defs)
  from C10_corner_accesses_in_bounds [OF h1, of read_integer "(0, 0, 0)" init_loader] h2
    C10_corner_accesses_in_bounds [OF h3, of read_integer "(0, 0, 0)" init_loader] h4 ev
  show ?thesis by simp
qed

text \<open>
  Claim C4, as the code has it. A face line with one or two corners does not make
  parsing fail: when its corner tokens convert, the line adds no index and no normal, and
  loading goes on with the next line as if the line were not there.
\<close>

theorem C4_short_face_skipped:
  assumes "substr line 0 2 = ''f ''"
    and "read_corners (tokens (substr line 2 npos)) [] [] = Inr (fv, fn)"
    and "length fv = 1 \<or> length fv = 2"
  shows "process_line rd vinit st line = Inr st
       \<and> load_lines rd vinit st (line # rest) = load_lines rd vinit st rest"
proof -
  from assms(3) have "loop_bound (length fv) \<le> 1"
    by (auto simp: loop_bound_def)
  then have "triangulate fv fn (tempNormals st) (loop_bound (length fv)) 1 (mesh st) = Inr (mesh st)"
    by (rule triangulate_done)
  with assms(1,2) have "process_line rd vinit st line = Inr st"
    by (simp add: process_line_f)
  then show ?thesis by simp
qed

theorem C4_two_corner_witness:
  "substr ''f 1//1 2//1'' 0 2 = ''f ''
   \<and> read_corners (tokens (substr ''f 1//1 2//1'' 2 npos)) [] [] = Inr ([0, 1], [0, 0])
   \<and> process_line read_integer (0, 0, 0) init_loader ''f 1//1 2//1'' = Inr init_loader
   \<and> load_lines read_integer (0, 0, 0) init_loader [''f 1//1 2//1'', ''v 1 2 3'']
       = load_lines read_integer (0, 0, 0) init_loader [''v 1 2 3'']"
proof -
  have h1: "substr ''f 1//1 2//1'' 0 2 = ''f ''" by (simp add: substr_def)
  have h2: "read_corners (tokens (substr ''f 1//1 2//1'' 2 npos)) [] [] = Inr ([0, 1], [0, 0])"
    by (simp add: eval_defs)
  have h3: "length [0, 1 :: uint] = 1 \<or> length [0, 1 :: uint] = 2" by simp
  from h1 h2 C4_short_face_skipped [OF h1 h2 h3, of read_integer "(0, 0, 0)" init_loader "[''v 1 2 3'']"]
  show ?thesis by simp
qed

theorem C4_counterexample:
  "loadOBJ read_integer (0, 0, 0)
     (text_of [''v 0 0 0'', ''v 1 0 0'', ''vn 0 0 1'', ''f 1//1 2//1''])
   = Inr \<lparr>vertices = [0, 0, 0, 1, 0, 0], normals = [], indices = [], edgeIndices = []\<rparr>"
  by (simp add: eval_defs)

section \<open>Tokens the loader does not check\<close>

lemma isdigit_plain: "isdigit c \<Longrightarrow> \<not> isspace c \<and> c \<noteq> CHR ''-'' \<and> c \<noteq> CHR ''+''"
  by (auto simp: isdigit_def isspace_def)

lemma stoul_ignores_tail:
  assumes "ds \<noteq> []" and "\<forall>c \<in> set ds. isdigit c" and "r = [] \<or> \<not> isdigit (hd r)"
  shows "stoul (ds @ r) = stoul ds"
proof -
  from assms(1) obtain d ds' where ds: "ds = d # ds'" by (cases ds) auto
  with assms(2) have d: "isdigit d" by simp
  note p = isdigit_plain [OF d]
  from p have sp: "dropWhile isspace (ds @ r) = ds @ r" "dropWhile isspace ds = ds"
    by (simp_all add: ds)
  from p have sg: "strip_sign (ds @ r) = (False, ds @ r)" "strip_sign ds = (False, ds)"
    by (simp_all add: ds strip_sign_def)
  from assms(3) have "takeWhile isdigit r = []"
    by (cases r) auto
  with assms(2) have tw: "takeWhile isdigit (ds @ r) = ds" "takeWhile isdigit ds = ds"
    by (simp_all add: takeWhile_append2)
  show ?thesis
    by (simp add: stoul_def sp sg tw)
qed

lemma read_vec3_first_fails:
  assumes "dropWhile isspace s \<noteq> []" and "fails_storing (rd (dropWhile isspace s)) w"
  shows "read_vec3 rd (x0, y0, z0) s = (w, y0, z0)"
  using assms
  by (cases "rd (dropWhile isspace s)")
     (auto simp: read_vec3_def extract_float_def Let_def fails_storing_def)

lemma read_vec3_second_fails:
  assumes "dropWhile isspace s \<noteq> []" and "rd (dropWhile isspace s) = Converted x r"
    and "dropWhile isspace r \<noteq> []" and "fails_storing (rd (dropWhile isspace r)) w"
  shows "read_vec3 rd (x0, y0, z0) s = (x, w, z0)"
  using assms
  by (cases "rd (dropWhile isspace r)")
     (auto simp: read_vec3_def extract_float_def Let_def fails_storing_def)

lemma read_vec3_third_fails:
  assumes "dropWhile isspace s \<noteq> []" and "rd (dropWhile isspace s) = Converted x r"
    and "dropWhile isspace r \<noteq> []" and "rd (dropWhile isspace r) = Converted y q"
    and "dropWhile isspace q \<noteq> []" and "fails_storing (rd (dropWhile isspace q)) w"
  shows "read_vec3 rd (x0, y0, z0) s = (x, y, w)"
  using assms
  by (cases "rd (dropWhile isspace q)")
     (auto simp: read_vec3_def extract_float_def Let_def fails_storing_def)

lemma process_line_bad_token:
  assumes "substr l 0 2 = ''f ''" and "t \<in> set (tokens (substr l 2 npos))"
    and "parse_corner t = Inl e"
  shows "\<exists>e'. process_line rd vinit st l = Inl e'"
proof -
  from read_corners_fail [OF assms(2,3)] obtain e' where
    "read_corners (tokens (substr l 2 npos)) [] [] = Inl e'" by blast
  with assms(1) show ?thesis by (simp add: process_line_f)
qed

lemma loadOBJ_no_face:
  assumes "\<forall>l \<in> set (getlines src). substr l 0 2 \<noteq> ''f ''"
  shows "\<exists>m. loadOBJ rd vinit src = Inr m"
proof -
  from load_lines_no_face [OF assms] obtain st where
    "load_lines rd vinit init_loader (getlines src) = Inr st" by blast
  then show ?thesis by (simp add: loadOBJ_def)
qed

lemma loadOBJ_bad_token:
  assumes "l \<in> set (getlines src)" and "substr l 0 2 = ''f ''"
    and "t \<in> set (tokens (substr l 2 npos))" and "parse_corner t = Inl e"
  shows "\<exists>e'. loadOBJ rd vinit src = Inl e'"
proof -
  have "\<And>st. \<exists>e'. process_line rd vinit st l = Inl e'"
    by (rule process_line_bad_token [OF assms(2,3,4)])
  from load_lines_fail [OF assms(1) this] obtain e' where
    "load_lines rd vinit init_loader (getlines src) = Inl e'" by blast
  then show ?thesis by (simp add: loadOBJ_def)
qed

text \<open>
  Claim C5, as the code has it. A malformed numeric token in a \<open>v\<close> or \<open>vn\<close> line never
  makes parsing fail: a source without face line always loads. The component at which
  the conversion fails, be it the first, the second or the third, receives what the
  failed conversion stores, zero when no number can be read and the value the library
  puts in its place when the number is out of range, and the components after it keep
  what the declaration left. A source fails to load when one of its face lines has a
  corner token on which \<open>std::stoul\<close> throws; \<open>std::stoul\<close> ignores what follows the
  leading digits of a field.
\<close>

theorem C5_malformed_tokens:
  "((\<forall>l \<in> set (getlines src). substr l 0 2 \<noteq> ''f '') \<longrightarrow> (\<exists>m. loadOBJ rd vinit src = Inr m))
   \<and> (dropWhile isspace s \<noteq> [] \<and> fails_storing (rd (dropWhile isspace s)) w
        \<longrightarrow> read_vec3 rd (x0, y0, z0) s = (w, y0, z0))
   \<and> (dropWhile isspace s \<noteq> [] \<and> rd (dropWhile isspace s) = Converted x r
        \<and> dropWhile isspace r \<noteq> [] \<and> fails_storing (rd (dropWhile isspace r)) w
        \<longrightarrow> read_vec3 rd (x0, y0, z0) s = (x, w, z0))
   \<and> (dropWhile isspace s \<noteq> [] \<and> rd (dropWhile isspace s) = Converted x r
        \<and> dropWhile isspace r \<noteq> [] \<and> rd (dropWhile isspace r) = Converted y q
        \<and> dropWhile isspace q \<noteq> [] \<and> fails_storing (rd (dropWhile isspace q)) w
        \<longrightarrow> read_vec3 rd (x0, y0, z0) s = (x, y, w))
   \<and> fails_storing No_Conversion 0
   \<and> fails_storing (Out_Of_Float_Range w rest) w
   \<and> \<not> fails_storing (Converted w rest) w'
   \<and> (l \<in> set (getlines src) \<and> substr l 0 2 = ''f '' \<and> t \<in> set (tokens (substr l 2 npos))
        \<and> parse_corner t = Inl e
        \<longrightarrow> (e = Invalid_Argument \<or> e = Out_Of_Range) \<and> (\<exists>e'. loadOBJ rd vinit src = Inl e'))
   \<and> (ds \<noteq> [] \<and> (\<forall>c \<in> set ds. isdigit c) \<and> (rest = [] \<or> \<not> isdigit (hd rest))
        \<longrightarrow> stoul (ds @ rest) = stoul ds)"
proof -
  have a: "(\<forall>l \<in> set (getlines src). substr l 0 2 \<noteq> ''f '') \<longrightarrow> (\<exists>m. loadOBJ rd vinit src = Inr m)"
    using loadOBJ_no_face [of src rd vinit] by blast
  have b1: "dropWhile isspace s \<noteq> [] \<and> fails_storing (rd (dropWhile isspace s)) w
        \<longrightarrow> read_vec3 rd (x0, y0, z0) s = (w, y0, z0)"
    using read_vec3_first_fails [of s rd w x0 y0 z0] by blast
  have b2: "dropWhile isspace s \<noteq> [] \<and> rd (dropWhile isspace s) = Converted x r
        \<and> dropWhile isspace r \<noteq> [] \<and> fails_storing (rd (dropWhile isspace r)) w
        \<longrightarrow> read_vec3 rd (x0, y0, z0) s = (x, w, z0)"
    using read_vec3_second_fails [of s rd x r w x0 y0 z0] by blast
  have b3: "dropWhile isspace s \<noteq> [] \<and> rd (dropWhile isspace s) = Converted x r
        \<and> dropWhile isspace r \<noteq> [] \<and> rd (dropWhile isspace r) = Converted y q
        \<and> dropWhile isspace q \<noteq> [] \<and> fails_storing (rd (dropWhile isspace q)) w
        \<longrightarrow> read_vec3 rd (x0, y0, z0) s = (x, y, w)"
    using read_vec3_third_fails [of s rd x r y q w x0 y0 z0] by blast
  have c: "fails_storing No_Conversion 0 \<and> fails_storing (Out_Of_Float_Range w rest) w
      \<and> \<not> fails_storing (Converted w rest) w'"
    by (simp add: fails_storing_def)
  have d: "l \<in> set (getlines src) \<and> substr l 0 2 = ''f '' \<and> t \<in> set (tokens (substr l 2 npos))
        \<and> parse_corner t = Inl e
        \<longrightarrow> (e = Invalid_Argument \<or> e = Out_Of_Range) \<and> (\<exists>e'. loadOBJ rd vinit src = Inl e')"
    using loadOBJ_bad_token [of l src t e rd vinit] parse_corner_error [of t e] by blast
  have e: "ds \<noteq> [] \<and> (\<forall>c \<in> set ds. isdigit c) \<and> (rest = [] \<or> \<not> isdigit (hd rest))
        \<longrightarrow> stoul (ds @ rest) = stoul ds"
    using stoul_ignores_tail [of ds rest] by blast
  from a b1 b2 b3 c d e show ?thesis by blast
qed

theorem C5_witness:
  "loadOBJ read_integer (7, 8, 9) (text_of [''v 1 abc 3'', ''vn x''])
     = Inr \<lparr>vertices = [1, 0, 9], normals = [], indices = [], edgeIndices = []\<rparr>
   \<and> read_vec3 read_integer (7, 8, 9) ''abc 3'' = (0, 8, 9)
   \<and> read_vec3 read_integer (7, 8, 9) ''1 abc 3'' = (1, 0, 9)
   \<and> read_vec3 read_integer (7, 8, 9) ''1 2 x'' = (1, 2, 0)
   \<and> read_integer ''1000000000000000000000000000000000000000 3''
       = Out_Of_Float_Range FLT_MAX '' 3''
   \<and> read_vec3 read_integer (7, 8, 9) ''1 1000000000000000000000000000000000000000 3''
       = (1, FLT_MAX, 9)
   \<and> parse_corner ''a//1'' = Inl Invalid_Argument
   \<and> loadOBJ read_integer (7, 8, 9) (text_of [''vn 0 0 1'', ''f a//1 2//1 3//1'']) = Inl Invalid_Argument
   \<and> stoul ''1x'' = stoul ''1''
   \<and> stoul ''1x'' = Inr 1"
proof -
  let ?src1 = "text_of [''v 1 abc 3'', ''vn x'']"
  let ?src2 = "text_of [''vn 0 0 1'', ''f a//1 2//1 3//1'']"
  let ?big = "''1000000000000000000000000000000000000000 3''"
  have h1: "\<forall>l \<in> set (getlines ?src1). substr l 0 2 \<noteq> ''f ''"
    by (simp add: text_of_def getlines_def substr_def)
  have h2: "dropWhile isspace ''abc 3'' \<noteq> []
      \<and> fails_storing (read_integer (dropWhile isspace ''abc 3'')) 0"
    by (simp add: eval_defs fails_storing_def)
  have h3: "dropWhile isspace ''1 abc 3'' \<noteq> []
      \<and> read_integer (dropWhile isspace ''1 abc 3'') = Converted 1 '' abc 3''
      \<and> dropWhile isspace '' abc 3'' \<noteq> []
      \<and> fails_storing (read_integer (dropWhile isspace '' abc 3'')) 0"
    by (simp add: eval_defs fails_storing_def)
  have h3': "dropWhile isspace ''1 2 x'' \<noteq> []
      \<and> read_integer (dropWhile isspace ''1 2 x'') = Converted 1 '' 2 x''
      \<and> dropWhile isspace '' 2 x'' \<noteq> []
      \<and> read_integer (dropWhile isspace '' 2 x'') = Converted 2 '' x''
      \<and> dropWhile isspace '' x'' \<noteq> []
      \<and> fails_storing (read_integer (dropWhile isspace '' x'')) 0"
    by (simp add: eval_defs fails_storing_def)
  have big: "read_integer ?big = Out_Of_Float_Range FLT_MAX '' 3''"
    by (simp add: read_integer_def isdigit_def digit_val_def FLT_MAX_def)
  have h3'': "dropWhile isspace (''1 '' @ ?big) \<noteq> []
      \<and> read_integer (dropWhile isspace (''1 '' @ ?big)) = Converted 1 ('' '' @ ?big)
      \<and> dropWhile isspace ('' '' @ ?big) \<noteq> []
      \<and> fails_storing (read_integer (dropWhile isspace ('' '' @ ?big))) FLT_MAX"
    using big by (simp add: read_integer_def isdigit_def digit_val_def isspace_def fails_storing_def FLT_MAX_def)
  have h4: "''f a//1 2//1 3//1'' \<in> set (getlines ?src2) \<and> substr ''f a//1 2//1 3//1'' 0 2 = ''f ''
      \<and> ''a//1'' \<in> set (tokens (substr ''f a//1 2//1 3//1'' 2 npos))
      \<and> parse_corner ''a//1'' = Inl Invalid_Argument"
    by (simp add: eval_defs)
  have h5: "''1'' \<noteq> [] \<and> (\<forall>c \<in> set ''1''. isdigit c) \<and> (''x'' = [] \<or> \<not> isdigit (hd ''x''))"
    by (simp add: isdigit_def)
  have e1: "loadOBJ read_integer (7, 8, 9) ?src1
     = Inr \<lparr>vertices = [1, 0, 9], normals = [], indices = [], edgeIndices = []\<rparr>"
    by (simp add: eval_defs)
  have e2: "loadOBJ read_integer (7, 8, 9) ?src2 = Inl Invalid_Argument"
    by (simp add: eval_defs)
  have e3: "stoul ''1x'' = Inr 1"
    by (simp add: eval_defs)
  from C5_malformed_tokens [where src = ?src1 and rd = read_integer and vinit = "(7, 8, 9)"
      and s = "''abc 3''" and ?x0.0 = 7 and ?y0.0 = 8 and ?z0.0 = 9 and w = 0
      and ds = "''1''" and rest = "''x''"] h1 h2 h5
  have r1: "read_vec3 read_integer (7, 8, 9) ''abc 3'' = (0, 8, 9) \<and> stoul ''1x'' = stoul ''1''"
    by simp
  from C5_malformed_tokens [where src = ?src2 and rd = read_integer and vinit = "(7, 8, 9)"
      and s = "''1 abc 3''" and ?x0.0 = 7 and ?y0.0 = 8 and ?z0.0 = 9 and w = 0 and x = 1
      and r = "'' abc 3''" and l = "''f a//1 2//1 3//1''" and t = "''a//1''"
      and e = Invalid_Argument] h3 h4
  have r2: "read_vec3 read_integer (7, 8, 9) ''1 abc 3'' = (1, 0, 9)"
    by simp
  from C5_malformed_tokens [where rd = read_integer
      and s = "''1 2 x''" and ?x0.0 = 7 and ?y0.0 = 8 and ?z0.0 = 9 and w = 0 and x = 1
      and r = "'' 2 x''" and y = 2 and q = "'' x''"] h3'
  have r3: "read_vec3 read_integer (7, 8, 9) ''1 2 x'' = (1, 2, 0)"
    by simp
  from C5_malformed_tokens [where rd = read_integer
      and s = "''1 '' @ ?big" and ?x0.0 = 7 and ?y0.0 = 8 and ?z0.0 = 9 and w = FLT_MAX and x = 1
      and r = "'' '' @ ?big"] h3''
  have r4: "read_vec3 read_integer (7, 8, 9) (''1 '' @ ?big) = (1, FLT_MAX, 9)"
    by blast
  then have r4': "read_vec3 read_integer (7, 8, 9) ''1 1000000000000000000000000000000000000000 3''
       = (1, FLT_MAX, 9)"
    by simp
  from h4 e1 e2 e3 r1 r2 r3 big r4' show ?thesis by simp
qed

theorem C5_counterexample:
  "loadOBJ read_integer (0, 0, 0)
     (text_of [''v 1 abc 3'', ''v 0 1 0'', ''v 0 0 1'', ''vn 0 0 x'', ''f 1x//1 2//1y 3/z/1''])
   = Inr \<lparr>vertices = [1, 0, 0, 0, 1, 0, 0, 0, 1], normals = [0, 0, 0, 0, 0, 0, 0, 0, 0],
          indices = [0, 1, 2], edgeIndices = []\<rparr>"
  by (simp add: eval_defs)

lemma process_line_face_accepted:
  assumes f: "substr line 0 2 = ''f ''"
    and rc: "read_corners (tokens (substr line 2 npos)) [] [] = Inr (fv, fn)"
    and ne: "fv \<noteq> []"
    and rng: "\<forall>k < length fn. unat (fn ! k) < length (tempNormals st)"
  shows "\<exists>st'. process_line rd vinit st line = Inr st'"
proof -
  from read_corners_length [OF rc] have len: "length fn = length fv" by simp
  from ne have lb: "loop_bound (length fv) = length fv - 1"
    by (simp add: loop_bound_def)
  have "\<exists>m'. triangulate fv fn (tempNormals st) (length fv - 1) 1 (mesh st) = Inr m'"
  proof (cases "3 \<le> length fv")
    case True
    have r3: "\<forall>j \<in> {0, 1, 2}. j < length fn \<and> unat (fn ! j) < length (tempNormals st)"
    proof
      fix j :: nat
      assume "j \<in> {0, 1, 2}"
      then have "j \<le> 2" by auto
      with True len have "j < length fn" by linarith
      with rng show "j < length fn \<and> unat (fn ! j) < length (tempNormals st)" by simp
    qed
    from True have bnd: "length fv - 1 < length fv" by linarith
    from triangulate_total [OF bnd r3] show ?thesis .
  next
    case False
    then have "length fv - 1 \<le> 1" by linarith
    from triangulate_done [OF this] show ?thesis by blast
  qed
  with f rc lb show ?thesis by (auto simp: process_line_f)
qed

lemma process_line_face_error:
  assumes f: "substr line 0 2 = ''f ''"
    and rc: "read_corners (tokens (substr line 2 npos)) [] [] = Inr (fv, fn)"
  shows "process_line rd vinit st line \<noteq> Inl Invalid_Argument
       \<and> process_line rd vinit st line \<noteq> Inl Out_Of_Range"
proof (cases "triangulate fv fn (tempNormals st) (loop_bound (length fv)) 1 (mesh st)")
  case (Inl e)
  with f rc have "process_line rd vinit st line = Inl e"
    by (simp add: process_line_f)
  with triangulate_error [OF Inl] show ?thesis by auto
next
  case (Inr m)
  with f rc show ?thesis by (simp add: process_line_f)
qed

lemma process_line_short_face:
  assumes "substr line 0 2 = ''f ''"
    and "read_corners (tokens (substr line 2 npos)) [] [] = Inr (fv, fn)"
    and "length fv = 1 \<or> length fv = 2"
  shows "process_line rd vinit st line = Inr st"
proof -
  from assms(3) have "loop_bound (length fv) \<le> 1"
    by (auto simp: loop_bound_def)
  then have "triangulate fv fn (tempNormals st) (loop_bound (length fv)) 1 (mesh st) = Inr (mesh st)"
    by (rule triangulate_done)
  with assms(1,2) show ?thesis
    by (simp add: process_line_f)
qed

lemma add_normals_outside:
  "\<forall>j \<in> set js. j < length fn \<Longrightarrow> \<exists>j \<in> set js. length tn \<le> unat (fn ! j) \<Longrightarrow>
     add_normals fn tn js m = Inl Bad_tempNormals"
proof (induction js arbitrary: m)
  case Nil
  then show ?case by simp
next
  case (Cons j js)
  from Cons.prems(1) have j: "j < length fn" by simp
  show ?case
  proof (cases "unat (fn ! j) < length tn")
    case False
    with j show ?thesis by (simp add: vec_at_def)
  next
    case True
    obtain x y z where v: "tn ! unat (fn ! j) = (x, y, z)"
      by (cases "tn ! unat (fn ! j)") auto
    from True Cons.prems(2) have ex: "\<exists>j \<in> set js. length tn \<le> unat (fn ! j)" by auto
    from Cons.prems(1) have all: "\<forall>j \<in> set js. j < length fn" by simp
    from Cons.IH [OF all ex, of "m\<lparr>normals := normals m @ [x, y, z]\<rparr>"] j True v
    show ?thesis by (simp add: vec_at_def)
  qed
qed

text \<open>
  The first triangle of a face has the corners 0, 1, 2, the ones the loop over \<open>j\<close> reads:
  a normal index outside the staging list at one of them is read outside the vector.
\<close>

lemma process_line_first_corners_outside:
  assumes f: "substr line 0 2 = ''f ''"
    and rc: "read_corners (tokens (substr line 2 npos)) [] [] = Inr (fv, fn)"
    and n3: "3 \<le> length fv"
    and k: "k < 3"
    and out: "length (tempNormals st) \<le> unat (fn ! k)"
  shows "process_line rd vinit st line = Inl Bad_tempNormals"
proof -
  from read_corners_length [OF rc] have len: "length fn = length fv" by simp
  from n3 have lb: "loop_bound (length fv) = length fv - 1"
    by (auto simp: loop_bound_def)
  from n3 have i: "1 < length fv - 1" and b: "length fv - 1 < length fv" by linarith+
  have all: "\<forall>j \<in> set [0, 1, 2]. j < length fn"
    using n3 len by auto
  from k have "k \<in> set [0, 1, 2]" by auto
  with out have ex: "\<exists>j \<in> set [0, 1, 2]. length (tempNormals st) \<le> unat (fn ! j)"
    by blast
  have "triangulate fv fn (tempNormals st) (length fv - 1) 1 (mesh st) = Inl Bad_tempNormals"
    by (simp only: triangulate_step [OF i b] add_normals_outside [OF all ex] sum.case)
  with f rc lb show ?thesis by (simp add: process_line_f)
qed

lemma takeWhile_before:
  "\<not> P x \<Longrightarrow> takeWhile P (xs @ x # ys) = takeWhile P xs"
  by (induction xs) simp_all

lemma slash_plain: "\<not> isspace CHR ''/'' \<and> \<not> isdigit CHR ''/''"
  by (simp add: isspace_def isdigit_def)

text \<open>\<open>std::stoul\<close> on a string with a \<open>/\<close> reads what is before the \<open>/\<close>.\<close>

lemma stoul_before_slash: "stoul (p @ CHR ''/'' # q) = stoul p"
proof (cases "dropWhile isspace p")
  case Nil
  then have sp: "\<forall>c \<in> set p. isspace c"
    by (simp add: dropWhile_eq_Nil_conv)
  then have dw: "dropWhile isspace (p @ CHR ''/'' # q) = CHR ''/'' # q"
    using slash_plain by (simp add: dropWhile_append2)
  have l: "stoul (p @ CHR ''/'' # q) = Inl Invalid_Argument"
    unfolding stoul_def dw using slash_plain by (simp add: strip_sign_def)
  have r: "stoul p = Inl Invalid_Argument"
    unfolding stoul_def Nil by (simp add: strip_sign_def)
  from l r show ?thesis by simp
next
  case (Cons c d)
  then have "\<exists>x \<in> set p. \<not> isspace x"
    by (metis dropWhile_eq_Nil_conv list.distinct(1))
  then have dw: "dropWhile isspace (p @ CHR ''/'' # q) = c # d @ CHR ''/'' # q"
    using Cons by (auto simp: dropWhile_append1)
  obtain neg s where st: "strip_sign (c # d) = (neg, s)"
    by (cases "strip_sign (c # d)")
  then have st': "strip_sign (c # d @ CHR ''/'' # q) = (neg, s @ CHR ''/'' # q)"
    by (auto simp: strip_sign_def split: if_splits)
  have tw: "takeWhile isdigit (s @ CHR ''/'' # q) = takeWhile isdigit s"
    using slash_plain by (simp add: takeWhile_before)
  show ?thesis
    by (simp only: stoul_def dw Cons st st' tw Let_def prod.case)
qed

lemma index_from_split:
  "c \<notin> set p \<Longrightarrow> index_from c (p @ c # q) k = k + length p"
  by (induction p arbitrary: k) auto

lemma find_char_first: "c \<notin> set p \<Longrightarrow> find_char (p @ c # q) c 0 = length p"
  by (simp add: find_char_def index_from_split)

lemma find_char_after:
  "find_char (p @ c # q) c' (Suc (length p)) = index_from c' q (Suc (length p))"
  by (simp add: find_char_def)

lemma size_t_succ_small: "n < 2 ^ 64 - 1 \<Longrightarrow> size_t_succ n = n + 1"
  by (simp add: size_t_succ_def)

lemma parse_corner_no_field:
  assumes "CHR ''/'' \<notin> set t" and "length t < 2 ^ 64"
  shows "parse_corner t =
           (case stoul t of Inl e \<Rightarrow> Inl e | Inr a \<Rightarrow> Inr (ucast (a - 1), ucast (a - 1)))"
proof -
  from assms(1) have p: "find_char t CHR ''/'' 0 = npos"
    by (simp add: find_char_def index_from_absent)
  from assms(2) have s: "substr t 0 npos = t"
    by (simp add: substr_def npos_def)
  show ?thesis
    by (cases "stoul t") (simp_all add: parse_corner_def p s size_t_succ_npos)
qed

lemma parse_corner_one_slash:
  assumes "CHR ''/'' \<notin> set p" and "CHR ''/'' \<notin> set q"
    and "length (p @ CHR ''/'' # q) < 2 ^ 64"
  shows "parse_corner (p @ CHR ''/'' # q) =
           (case stoul p of Inl e \<Rightarrow> Inl e | Inr a \<Rightarrow> Inr (ucast (a - 1), ucast (a - 1)))"
proof -
  let ?t = "p @ CHR ''/'' # q"
  from assms(1) have p1: "find_char ?t CHR ''/'' 0 = length p"
    by (rule find_char_first)
  from assms(3) have "length p < 2 ^ 64 - 1" by simp
  then have sc: "size_t_succ (length p) = length p + 1"
    by (rule size_t_succ_small)
  from assms(2) have p2: "find_char ?t CHR ''/'' (length p + 1) = npos"
    by (simp add: find_char_after index_from_absent)
  have s1: "substr ?t 0 (length p) = p"
    by (simp add: substr_def)
  from assms(3) have s2: "substr ?t 0 npos = ?t"
    by (simp add: substr_def npos_def)
  have "parse_corner ?t =
      (case stoul p of Inl e \<Rightarrow> Inl e
       | Inr a \<Rightarrow> (case stoul ?t of Inl e \<Rightarrow> Inl e | Inr b \<Rightarrow> Inr (ucast (a - 1), ucast (b - 1))))"
    by (simp only: parse_corner_def Let_def p1 sc p2 size_t_succ_npos s1 s2)
  then show ?thesis
    by (cases "stoul p") (simp_all add: stoul_before_slash)
qed

lemma parse_corner_two_slashes:
  assumes "CHR ''/'' \<notin> set p" and "CHR ''/'' \<notin> set m"
    and "length (p @ CHR ''/'' # m @ CHR ''/'' # n) < 2 ^ 64"
  shows "parse_corner (p @ CHR ''/'' # m @ CHR ''/'' # n) =
           (case stoul p of Inl e \<Rightarrow> Inl e
            | Inr a \<Rightarrow> (case stoul n of Inl e \<Rightarrow> Inl e
                        | Inr b \<Rightarrow> Inr (ucast (a - 1), ucast (b - 1))))"
proof -
  let ?t = "p @ CHR ''/'' # m @ CHR ''/'' # n"
  from assms(1) have p1: "find_char ?t CHR ''/'' 0 = length p"
    by (rule find_char_first)
  from assms(3) have "length p < 2 ^ 64 - 1" by simp
  then have sc: "size_t_succ (length p) = length p + 1"
    by (rule size_t_succ_small)
  from assms(2) have p2: "find_char ?t CHR ''/'' (length p + 1) = length p + 1 + length m"
    by (simp add: find_char_after index_from_split)
  from assms(3) have "length p + 1 + length m < 2 ^ 64 - 1" by simp
  then have sc2: "size_t_succ (length p + 1 + length m) = length p + 1 + length m + 1"
    by (rule size_t_succ_small)
  have s1: "substr ?t 0 (length p) = p"
    by (simp add: substr_def)
  have "drop (length p + 1 + length m + 1) ?t = n"
    by simp
  with assms(3) have s2: "substr ?t (length p + 1 + length m + 1) npos = n"
    by (simp add: substr_def npos_def)
  show ?thesis
    by (simp only: parse_corner_def Let_def p1 sc p2 sc2 s1 s2)
qed

lemma stoul_empty: "stoul [] = Inl Invalid_Argument"
  by (simp add: stoul_def strip_sign_def)

text \<open>
  Claim C6, as the code has it. The loader has no check of normal indices and no parse
  error for them.
  \<^item> A corner token with fewer than two \<open>/\<close> has no normal field: the loader takes the
    number at the start of the token, its position index, as the normal index too.
  \<^item> A corner token with two \<open>/\<close> takes its normal index from the text after the second
    \<open>/\<close>; when \<open>std::stoul\<close> rejects that text, as it does the empty text of \<open>1//\<close>, the
    exception is not caught and loading is aborted.
  \<^item> A normal index outside the staging list is never rejected. In a face with one or
    two corners it is never read and the line loads. In a face with three or more corners
    an index outside the list at one of the first three corners is read by an unchecked
    \<open>operator[]\<close> outside the vector, where the model stops with \<open>Bad_tempNormals\<close>. A
    face with at least one corner whose normal indices all lie inside the list loads.
\<close>

theorem C6_normal_index_unchecked:
  "(CHR ''/'' \<notin> set t \<and> length t < 2 ^ 64
      \<longrightarrow> parse_corner t =
            (case stoul t of Inl e \<Rightarrow> Inl e | Inr a \<Rightarrow> Inr (ucast (a - 1), ucast (a - 1))))
   \<and> (CHR ''/'' \<notin> set p \<and> CHR ''/'' \<notin> set q \<and> length (p @ CHR ''/'' # q) < 2 ^ 64
      \<longrightarrow> parse_corner (p @ CHR ''/'' # q) =
            (case stoul p of Inl e \<Rightarrow> Inl e | Inr a \<Rightarrow> Inr (ucast (a - 1), ucast (a - 1))))
   \<and> (CHR ''/'' \<notin> set p \<and> CHR ''/'' \<notin> set m \<and> length (p @ CHR ''/'' # m @ CHR ''/'' # n) < 2 ^ 64
      \<longrightarrow> parse_corner (p @ CHR ''/'' # m @ CHR ''/'' # n) =
            (case stoul p of Inl e \<Rightarrow> Inl e
             | Inr a \<Rightarrow> (case stoul n of Inl e \<Rightarrow> Inl e
                         | Inr b \<Rightarrow> Inr (ucast (a - 1), ucast (b - 1)))))
   \<and> stoul [] = Inl Invalid_Argument
   \<and> (l \<in> set (getlines src) \<and> substr l 0 2 = ''f '' \<and> u \<in> set (tokens (substr l 2 npos))
        \<and> parse_corner u = Inl e
      \<longrightarrow> (e = Invalid_Argument \<or> e = Out_Of_Range) \<and> (\<exists>e'. loadOBJ rd vinit src = Inl e'))
   \<and> (substr line 0 2 = ''f '' \<and> read_corners (tokens (substr line 2 npos)) [] [] = Inr (fv, fn)
      \<longrightarrow> process_line rd vinit st line \<noteq> Inl Invalid_Argument
        \<and> process_line rd vinit st line \<noteq> Inl Out_Of_Range
        \<and> (length fv = 1 \<or> length fv = 2 \<longrightarrow> process_line rd vinit st line = Inr st)
        \<and> (3 \<le> length fv \<and> k < 3 \<and> length (tempNormals st) \<le> unat (fn ! k)
             \<longrightarrow> process_line rd vinit st line = Inl Bad_tempNormals)
        \<and> (fv \<noteq> [] \<and> (\<forall>k < length fn. unat (fn ! k) < length (tempNormals st))
             \<longrightarrow> (\<exists>st'. process_line rd vinit st line = Inr st')))"
proof -
  have a1: "CHR ''/'' \<notin> set t \<and> length t < 2 ^ 64
      \<longrightarrow> parse_corner t =
            (case stoul t of Inl e \<Rightarrow> Inl e | Inr a \<Rightarrow> Inr (ucast (a - 1), ucast (a - 1)))"
    using parse_corner_no_field [of t] by blast
  have a2: "CHR ''/'' \<notin> set p \<and> CHR ''/'' \<notin> set q \<and> length (p @ CHR ''/'' # q) < 2 ^ 64
      \<longrightarrow> parse_corner (p @ CHR ''/'' # q) =
            (case stoul p of Inl e \<Rightarrow> Inl e | Inr a \<Rightarrow> Inr (ucast (a - 1), ucast (a - 1)))"
    using parse_corner_one_slash [of p q] by blast
  have a3: "CHR ''/'' \<notin> set p \<and> CHR ''/'' \<notin> set m \<and> length (p @ CHR ''/'' # m @ CHR ''/'' # n) < 2 ^ 64
      \<longrightarrow> parse_corner (p @ CHR ''/'' # m @ CHR ''/'' # n) =
            (case stoul p of Inl e \<Rightarrow> Inl e
             | Inr a \<Rightarrow> (case stoul n of Inl e \<Rightarrow> Inl e
                         | Inr b \<Rightarrow> Inr (ucast (a - 1), ucast (b - 1))))"
    using parse_corner_two_slashes [of p m n] by blast
  note a4 = stoul_empty
  have a5: "l \<in> set (getlines src) \<and> substr l 0 2 = ''f '' \<and> u \<in> set (tokens (substr l 2 npos))
        \<and> parse_corner u = Inl e
      \<longrightarrow> (e = Invalid_Argument \<or> e = Out_Of_Range) \<and> (\<exists>e'. loadOBJ rd vinit src = Inl e')"
    using loadOBJ_bad_token [of l src u e rd vinit] parse_corner_error [of u e] by blast
  have b: "substr line 0 2 = ''f '' \<and> read_corners (tokens (substr line 2 npos)) [] [] = Inr (fv, fn)
      \<longrightarrow> process_line rd vinit st line \<noteq> Inl Invalid_Argument
        \<and> process_line rd vinit st line \<noteq> Inl Out_Of_Range
        \<and> (length fv = 1 \<or> length fv = 2 \<longrightarrow> process_line rd vinit st line = Inr st)
        \<and> (3 \<le> length fv \<and> k < 3 \<and> length (tempNormals st) \<le> unat (fn ! k)
             \<longrightarrow> process_line rd vinit st line = Inl Bad_tempNormals)
        \<and> (fv \<noteq> [] \<and> (\<forall>k < length fn. unat (fn ! k) < length (tempNormals st))
             \<longrightarrow> (\<exists>st'. process_line rd vinit st line = Inr st'))"
    using process_line_face_error [of line fv fn rd vinit st]
      process_line_face_accepted [of line fv fn st rd vinit]
      process_line_short_face [of line fv fn rd vinit st]
      process_line_first_corners_outside [of line fv fn k st rd vinit]
    by blast
  from a1 a2 a3 a4 a5 b show ?thesis by blast
qed

theorem C6_witness:
  "CHR ''/'' \<notin> set ''2'' \<and> stoul ''2'' = Inr 2 \<and> parse_corner ''2'' = Inr (1, 1)
   \<and> stoul ''5'' = Inr 5 \<and> parse_corner ''5/3'' = Inr (4, 4)
   \<and> stoul ''1'' = Inr 1 \<and> parse_corner ''1//'' = Inl Invalid_Argument
   \<and> parse_corner ''1/2/3'' = Inr (0, 2)
   \<and> loadOBJ read_integer (0, 0, 0) (text_of [''vn 0 0 1'', ''f 1//1 2//1 3//'']) = Inl Invalid_Argument
   \<and> read_corners (tokens (substr ''f 1 2 3'' 2 npos)) [] [] = Inr ([0, 1, 2], [0, 1, 2])
   \<and> process_line read_integer (0, 0, 0)
        (init_loader\<lparr>tempNormals := [(0, 0, 1), (0, 0, 2), (0, 0, 3)]\<rparr>) ''f 1 2 3''
      = Inr (init_loader\<lparr>tempNormals := [(0, 0, 1), (0, 0, 2), (0, 0, 3)],
               mesh := empty_mesh\<lparr>indices := [0, 1, 2],
                         normals := [0, 0, 1, 0, 0, 2, 0, 0, 3]\<rparr>\<rparr>)
   \<and> process_line read_integer (0, 0, 0)
        (init_loader\<lparr>tempNormals := [(0, 0, 1), (0, 0, 2), (0, 0, 3)]\<rparr>) ''f 1 2 3''
      \<noteq> Inl Invalid_Argument
   \<and> read_corners (tokens (substr ''f 1//7 2//9'' 2 npos)) [] [] = Inr ([0, 1], [6, 8])
   \<and> process_line read_integer (0, 0, 0) init_loader ''f 1//7 2//9'' = Inr init_loader
   \<and> read_corners (tokens (substr ''f 1//1 2//1 3//2'' 2 npos)) [] [] = Inr ([0, 1, 2], [0, 0, 1])
   \<and> process_line read_integer (0, 0, 0) (init_loader\<lparr>tempNormals := [(0, 0, 1)]\<rparr>)
        ''f 1//1 2//1 3//2'' = Inl Bad_tempNormals"
proof -
  let ?st = "init_loader\<lparr>tempNormals := [(0, 0, 1), (0, 0, 2), (0, 0, 3)]\<rparr>"
  let ?st1 = "init_loader\<lparr>tempNormals := [(0, 0, 1)]\<rparr>"
  let ?src = "text_of [''vn 0 0 1'', ''f 1//1 2//1 3//'']"
  have h1: "CHR ''/'' \<notin> set ''2'' \<and> length ''2'' < 2 ^ 64 \<and> stoul ''2'' = Inr 2"
    by (simp add: eval_defs)
  have h2: "CHR ''/'' \<notin> set ''5'' \<and> CHR ''/'' \<notin> set ''3'' \<and> length (''5'' @ CHR ''/'' # ''3'') < 2 ^ 64
      \<and> stoul ''5'' = Inr 5"
    by (simp add: eval_defs)
  have h3: "CHR ''/'' \<notin> set ''1'' \<and> CHR ''/'' \<notin> set [] \<and> length (''1'' @ CHR ''/'' # [] @ CHR ''/'' # []) < 2 ^ 64
      \<and> stoul ''1'' = Inr 1"
    by (simp add: eval_defs)
  have h3': "CHR ''/'' \<notin> set ''1'' \<and> CHR ''/'' \<notin> set ''2'' \<and> length (''1'' @ CHR ''/'' # ''2'' @ CHR ''/'' # ''3'') < 2 ^ 64
      \<and> stoul ''1'' = Inr 1 \<and> stoul ''3'' = Inr 3"
    by (simp add: eval_defs)
  have h5: "substr ''f 1 2 3'' 0 2 = ''f ''
      \<and> read_corners (tokens (substr ''f 1 2 3'' 2 npos)) [] [] = Inr ([0, 1, 2], [0, 1, 2])"
    by (simp add: eval_defs)
  have h6: "substr ''f 1//7 2//9'' 0 2 = ''f ''
      \<and> read_corners (tokens (substr ''f 1//7 2//9'' 2 npos)) [] [] = Inr ([0, 1], [6, 8])"
    by (simp add: eval_defs)
  have h7: "substr ''f 1//1 2//1 3//2'' 0 2 = ''f ''
      \<and> read_corners (tokens (substr ''f 1//1 2//1 3//2'' 2 npos)) [] [] = Inr ([0, 1, 2], [0, 0, 1])"
    by (simp add: eval_defs)
  have h8: "3 \<le> length [0, 1, 2 :: uint] \<and> (2 :: nat) < 3
      \<and> length (tempNormals ?st1) \<le> unat ([0, 0, 1 :: uint] ! 2)"
    by simp
  have ev: "process_line read_integer (0, 0, 0) ?st ''f 1 2 3''
      = Inr (init_loader\<lparr>tempNormals := [(0, 0, 1), (0, 0, 2), (0, 0, 3)],
               mesh := empty_mesh\<lparr>indices := [0, 1, 2],
                         normals := [0, 0, 1, 0, 0, 2, 0, 0, 3]\<rparr>\<rparr>)"
    by (simp add: eval_defs)
  have ev2: "loadOBJ read_integer (0, 0, 0) ?src = Inl Invalid_Argument"
    by (simp add: eval_defs)
  from C6_normal_index_unchecked [where t = "''2''" and p = "''5''" and q = "''3''"
      and m = "[]" and n = "[]"] h1 h2
  have r1: "parse_corner ''2'' = Inr (1, 1) \<and> parse_corner ''5/3'' = Inr (4, 4)"
    by simp
  from C6_normal_index_unchecked [where p = "''1''" and m = "[]" and n = "[]"] h3
  have r2: "parse_corner ''1//'' = Inl Invalid_Argument"
    by simp
  from C6_normal_index_unchecked [where p = "''1''" and m = "''2''" and n = "''3''"] h3'
  have r3: "parse_corner ''1/2/3'' = Inr (0, 2)"
    by simp
  from C6_normal_index_unchecked [where line = "''f 1 2 3''" and fv = "[0, 1, 2]" and fn = "[0, 1, 2]"
      and rd = read_integer and vinit = "(0, 0, 0)" and st = ?st] h5
  have r4: "process_line read_integer (0, 0, 0) ?st ''f 1 2 3'' \<noteq> Inl Invalid_Argument"
    by blast
  from C6_normal_index_unchecked [where line = "''f 1//7 2//9''" and fv = "[0, 1]" and fn = "[6, 8]"
      and rd = read_integer and vinit = "(0, 0, 0)" and st = init_loader] h6
  have r5: "process_line read_integer (0, 0, 0) init_loader ''f 1//7 2//9'' = Inr init_loader"
    by simp
  from C6_normal_index_unchecked [where line = "''f 1//1 2//1 3//2''" and fv = "[0, 1, 2]"
      and fn = "[0, 0, 1]" and k = 2 and rd = read_integer and vinit = "(0, 0, 0)" and st = ?st1] h7 h8
  have r6: "process_line read_integer (0, 0, 0) ?st1 ''f 1//1 2//1 3//2'' = Inl Bad_tempNormals"
    by blast
  from h1 h2 h3 r1 r2 r3 ev2 h5 ev r4 h6 r5 h7 r6 show ?thesis by simp
qed

theorem C6_counterexample:
  "loadOBJ read_integer (0, 0, 0)
     (text_of [''v 0 0 0'', ''v 1 0 0'', ''v 1 1 0'',
               ''vn 0 0 1'', ''vn 0 0 2'', ''vn 0 0 3'',
               ''f 1 2 3'', ''f 1//7 2//9''])
   = Inr \<lparr>vertices = [0, 0, 0, 1, 0, 0, 1, 1, 0],
          normals = [0, 0, 1, 0, 0, 2, 0, 0, 3],
          indices = [0, 1, 2], edgeIndices = []\<rparr>"
  by (simp add: eval_defs)

section \<open>The normals of a face with more than three corners\<close>

text \<open>
  Claim C1 on a quad with four different normals. The second triangle has the corners
  0, 2, 3, shown by its indices, and the claim gives it their normals
  \<open>(1, 0, 0), (0, 0, 1), (1, 1, 1)\<close>. The loop over \<open>j\<close> reads \<open>faceNormals[j]\<close> for
  \<open>j = 0, 1, 2\<close> in every iteration, so the second triangle receives
  \<open>(1, 0, 0), (0, 1, 0), (0, 0, 1)\<close>, the normals of the corners 0, 1, 2.
\<close>

theorem C1_quad_second_triangle_normals:
  "loadOBJ read_integer (0, 0, 0)
     (text_of [''v 0 0 0'', ''v 1 0 0'', ''v 1 1 0'', ''v 0 1 0'',
               ''vn 1 0 0'', ''vn 0 1 0'', ''vn 0 0 1'', ''vn 1 1 1'',
               ''f 1//1 2//2 3//3 4//4''])
   = Inr \<lparr>vertices = [0, 0, 0, 1, 0, 0, 1, 1, 0, 0, 1, 0],
          normals = [1, 0, 0, 0, 1, 0, 0, 0, 1, 1, 0, 0, 0, 1, 0, 0, 0, 1],
          indices = [0, 1, 2, 0, 2, 3], edgeIndices = []\<rparr>
   \<and> drop 9 [1, 0, 0, 0, 1, 0, 0, 0, 1, 1, 0, 0, 0, 1, 0, 0, 0, 1 :: cfloat]
       \<noteq> flat (1, 0, 0) @ flat (0, 0, 1) @ flat (1, 1, 1)"
  by (simp add: eval_defs)

end
